theory Spec2Isabelle
  imports Complex_Main
begin

section \<open>The haversine data generator (gendata/main.py)\<close>

text \<open>
  The program draws clustered random pairs of points on a sphere
  (\<^verbatim>\<open>generate_cluster\<close>, \<^verbatim>\<open>generate_pairs\<close>) and computes their great-circle
  distances (\<^verbatim>\<open>haversine_distance\<close>).

  Conventions of the embedding:
  \<^item> Python integers are \<open>int\<close>; NumPy's \<open>float64\<close> values are read as exact
    \<open>real\<close> numbers, with the one extra value \<open>NaN\<close> where NumPy produces it from
    finite arguments (square root and arcsine outside their domain);
  \<^item> the partition of the pairs is given a second time with \<open>float64\<close> rounding
    (\<open>linspace64\<close>, \<open>n_pairs_per_cluster64\<close>, \<open>generate_pairs64\<close>): its
    breakpoints are floored, so there a rounding error can move a whole pair from one
    cluster to the next, and the properties that depend on single counts are stated on
    this reading;
  \<^item> a one-dimensional array is a list, an array of shape \<open>(n, 2)\<close> is a list of rows,
    each row a pair;
  \<^item> the process-wide random generator is an explicit stream of unit draws that every
    sampling function takes and returns advanced;
  \<^item> every exception the code can raise is an \<open>Inl\<close> value.
\<close>

subsection \<open>Errors\<close>

datatype error = ValueError | ZeroDivisionError | AssertionError | IndexError

definition bind_err :: "error + 'a \<Rightarrow> ('a \<Rightarrow> error + 'b) \<Rightarrow> error + 'b" where
  "bind_err m f = (case m of Inl e \<Rightarrow> Inl e | Inr x \<Rightarrow> f x)"

subsection \<open>Constants\<close>

definition PHI_MIN_DEGREES :: int where "PHI_MIN_DEGREES = - 180"
definition PHI_MAX_DEGREES :: int where "PHI_MAX_DEGREES = 180"
definition THETA_MIN_DEGREES :: int where "THETA_MIN_DEGREES = - 90"
definition THETA_MAX_DEGREES :: int where "THETA_MAX_DEGREES = 90"

subsection \<open>The NumPy array functions the code calls\<close>

text \<open>
  \<^verbatim>\<open>np.linspace(start, stop, num)\<close> with the default \<open>endpoint=True\<close>: a negative
  \<open>num\<close> raises; otherwise the \<open>i\<close>-th sample is \<open>i * step + start\<close> with
  \<open>step = (stop - start) / (num - 1)\<close>, and for \<open>num > 1\<close> the last sample is
  overwritten with \<open>stop\<close> itself. This is the exact reading, in which no operation
  rounds; \<open>linspace64\<close> below is the same function with every operation rounded to
  \<open>float64\<close>.
\<close>

definition linspace :: "real \<Rightarrow> real \<Rightarrow> int \<Rightarrow> error + real list" where
  "linspace start stop num =
     (if num < 0 then Inl ValueError
      else let n = nat num;
               step = (stop - start) / real (n - 1);
               y = map (\<lambda>i. real i * step + start) [0..<n]
           in Inr (if 1 < n then y[n - 1 := stop] else y))"

definition np_floor :: "real \<Rightarrow> real" where
  "np_floor x = of_int \<lfloor>x\<rfloor>"

text \<open>\<^verbatim>\<open>np.diff\<close>: the differences of consecutive entries, one entry shorter.\<close>

definition np_diff :: "real list \<Rightarrow> real list" where
  "np_diff xs = map2 (\<lambda>a b. b - a) xs (tl xs)"

text \<open>\<^verbatim>\<open>.astype(int)\<close> on a float rounds towards zero.\<close>

definition astype_int :: "real \<Rightarrow> int" where
  "astype_int x = (if 0 \<le> x then \<lfloor>x\<rfloor> else \<lceil>x\<rceil>)"

text \<open>\<^verbatim>\<open>np.clip(x, lo, hi)\<close> is \<open>minimum(maximum(x, lo), hi)\<close>.\<close>

definition clip :: "real \<Rightarrow> real \<Rightarrow> real \<Rightarrow> real" where
  "clip x lo hi = min (max x lo) hi"

text \<open>Python's true division of two integers.\<close>

definition py_truediv :: "int \<Rightarrow> int \<Rightarrow> error + real" where
  "py_truediv a b = (if b = 0 then Inl ZeroDivisionError else Inr (real_of_int a / real_of_int b))"

subsection \<open>The partition of the pairs over the clusters\<close>

text \<open>
  Lines 71 to 73 of \<^verbatim>\<open>generate_pairs\<close>:
  \<^verbatim>\<open>np.diff(np.floor(np.linspace(0, n_pairs, n_clusters + 1))).astype(int)\<close>.
\<close>

definition n_pairs_per_cluster :: "int \<Rightarrow> int \<Rightarrow> error + int list" where
  "n_pairs_per_cluster n_pairs n_clusters =
     bind_err (linspace 0 (real_of_int n_pairs) (n_clusters + 1))
       (\<lambda>breaks. Inr (map astype_int (np_diff (map np_floor breaks))))"

subsection \<open>The random generator\<close>

text \<open>
  The state of \<^verbatim>\<open>np.random\<close> is a stream of unit draws, each in \<open>[0, 1)\<close>, and the
  number of draws already consumed. \<^verbatim>\<open>np.random.uniform(low, high, size)\<close> raises on a
  negative size and otherwise maps each draw \<open>u\<close> to \<open>low + (high - low) * u\<close>; for the
  size \<open>(n, 2)\<close> the rows are filled in order, two draws a row.
\<close>

record rng =
  draws :: "nat \<Rightarrow> real"
  pos :: nat

definition uniform :: "real \<Rightarrow> real \<Rightarrow> int \<Rightarrow> rng \<Rightarrow> error + (real list \<times> rng)" where
  "uniform low high sz g =
     (if sz < 0 then Inl ValueError
      else let n = nat sz
           in Inr (map (\<lambda>i. low + (high - low) * draws g (pos g + i)) [0..<n],
                   g\<lparr>pos := pos g + n\<rparr>))"

definition uniform_pairs ::
  "real \<Rightarrow> real \<Rightarrow> int \<Rightarrow> rng \<Rightarrow> error + ((real \<times> real) list \<times> rng)" where
  "uniform_pairs low high sz g =
     (if sz < 0 then Inl ValueError
      else let n = nat sz
           in Inr (map (\<lambda>j. (low + (high - low) * draws g (pos g + 2 * j),
                              low + (high - low) * draws g (pos g + 2 * j + 1))) [0..<n],
                   g\<lparr>pos := pos g + 2 * n\<rparr>))"

subsection \<open>generate_cluster\<close>

definition generate_cluster ::
  "int \<Rightarrow> real \<Rightarrow> real \<Rightarrow> real \<Rightarrow> real \<Rightarrow> rng
     \<Rightarrow> error + ((real \<times> real) list \<times> (real \<times> real) list \<times> rng)" where
  "generate_cluster n_pairs phi theta dphi dtheta g =
     bind_err (uniform_pairs (- dphi) dphi n_pairs g) (\<lambda>(us, g1).
       let phis = map (\<lambda>(a, b).
               (clip (phi + a) (real_of_int PHI_MIN_DEGREES) (real_of_int PHI_MAX_DEGREES),
                clip (phi + b) (real_of_int PHI_MIN_DEGREES) (real_of_int PHI_MAX_DEGREES))) us
       in bind_err (uniform_pairs (- dtheta) dtheta n_pairs g1) (\<lambda>(vs, g2).
            let thetas = map (\<lambda>(a, b).
                    (clip (theta + a) (real_of_int THETA_MIN_DEGREES) (real_of_int THETA_MAX_DEGREES),
                     clip (theta + b) (real_of_int THETA_MIN_DEGREES) (real_of_int THETA_MAX_DEGREES))) vs
            in Inr (phis, thetas, g2)))"

subsection \<open>generate_pairs\<close>

text \<open>
  The loop of lines 83 to 93 over the cluster indices: each round reads the count and
  the centre of cluster \<open>i\<close> (an index past the arrays raises), samples the cluster and
  appends its two blocks to \<^verbatim>\<open>phis_all\<close> and \<^verbatim>\<open>thetas_all\<close>.
\<close>

fun sample_clusters ::
  "nat list \<Rightarrow> int list \<Rightarrow> real list \<Rightarrow> real list \<Rightarrow> real \<Rightarrow> real \<Rightarrow> rng
     \<Rightarrow> error + ((real \<times> real) list list \<times> (real \<times> real) list list \<times> rng)" where
  "sample_clusters [] counts phis_center thetas_center dphi dtheta g = Inr ([], [], g)"
| "sample_clusters (i # rest) counts phis_center thetas_center dphi dtheta g =
     (if length counts \<le> i \<or> length phis_center \<le> i \<or> length thetas_center \<le> i
      then Inl IndexError
      else case generate_cluster (counts ! i) (phis_center ! i) (thetas_center ! i) dphi dtheta g of
             Inl e \<Rightarrow> Inl e
           | Inr (phis, thetas, g1) \<Rightarrow>
               (case sample_clusters rest counts phis_center thetas_center dphi dtheta g1 of
                  Inl e \<Rightarrow> Inl e
                | Inr (phis_all, thetas_all, g2) \<Rightarrow> Inr (phis # phis_all, thetas # thetas_all, g2)))"

text \<open>\<^verbatim>\<open>np.vstack\<close> of blocks of shape \<open>(k, 2)\<close>; an empty list of blocks raises.\<close>

definition vstack :: "(real \<times> real) list list \<Rightarrow> error + (real \<times> real) list" where
  "vstack blocks = (if blocks = [] then Inl ValueError else Inr (concat blocks))"

text \<open>
  \<^verbatim>\<open>generate_pairs\<close> up to the end of its loop: the lists \<^verbatim>\<open>phis_all\<close> and
  \<^verbatim>\<open>thetas_all\<close>, one block for each cluster sampled, and the generator left behind.
\<close>

definition generate_pairs_blocks ::
  "int \<Rightarrow> int \<Rightarrow> rng
     \<Rightarrow> error + ((real \<times> real) list list \<times> (real \<times> real) list list \<times> rng)" where
  "generate_pairs_blocks n_pairs n_clusters g =
     bind_err (uniform (real_of_int PHI_MIN_DEGREES) (real_of_int PHI_MAX_DEGREES) n_clusters g)
       (\<lambda>(phis_center, g1).
     bind_err (uniform (real_of_int THETA_MIN_DEGREES) (real_of_int THETA_MAX_DEGREES) n_clusters g1)
       (\<lambda>(thetas_center, g2).
     bind_err (n_pairs_per_cluster n_pairs n_clusters) (\<lambda>counts.
     bind_err (py_truediv (PHI_MAX_DEGREES - PHI_MIN_DEGREES) n_clusters) (\<lambda>dphi.
     bind_err (py_truediv (THETA_MAX_DEGREES - THETA_MIN_DEGREES) n_clusters) (\<lambda>dtheta.
       let n_clusters' = (if n_clusters = 1 then 2 else n_clusters)
       in if length phis_center \<noteq> length thetas_center then Inl AssertionError
          else if length counts \<noteq> length phis_center then Inl AssertionError
          else sample_clusters [0..<nat (n_clusters' - 1)] counts phis_center thetas_center
                 dphi dtheta g2)))))"

definition generate_pairs ::
  "int \<Rightarrow> int \<Rightarrow> rng \<Rightarrow> error + ((real \<times> real) list \<times> (real \<times> real) list \<times> rng)" where
  "generate_pairs n_pairs n_clusters g =
     bind_err (generate_pairs_blocks n_pairs n_clusters g) (\<lambda>(phis_all, thetas_all, g').
     bind_err (vstack phis_all) (\<lambda>phis.
     bind_err (vstack thetas_all) (\<lambda>thetas. Inr (phis, thetas, g'))))"

subsection \<open>The partition in float64\<close>

text \<open>
  A \<open>float64\<close> operation returns the exact result rounded to the nearest number with
  a mantissa of 53 bits, ties going to the even mantissa. The exponent range is not
  modelled: the numbers here are far from its ends.
\<close>

definition round_half_even :: "real \<Rightarrow> int" where
  "round_half_even x =
     (let f = \<lfloor>x\<rfloor>; d = x - real_of_int f
      in if d < 1 / 2 then f else if 1 / 2 < d then f + 1 else if even f then f else f + 1)"

definition fl64 :: "real \<Rightarrow> real" where
  "fl64 x =
     (if x = 0 then 0
      else let e = \<lfloor>log 2 \<bar>x\<bar>\<rfloor> - 52
           in real_of_int (round_half_even (x / 2 powr real_of_int e)) * 2 powr real_of_int e)"

text \<open>
  \<^verbatim>\<open>np.linspace\<close> as NumPy computes it: \<open>delta = stop - start\<close>,
  \<open>step = delta / div\<close> and the samples \<open>arange(0, num) * step + start\<close>, every
  operation rounded, and the last sample overwritten with \<open>stop\<close>. (Where the step
  is zero NumPy computes \<open>arange(0, num) / div * delta\<close> instead, which is zero as
  well.) \<^verbatim>\<open>np.floor\<close> is exact on a float, \<^verbatim>\<open>np.diff\<close> rounds its differences.
\<close>

definition linspace64 :: "real \<Rightarrow> real \<Rightarrow> int \<Rightarrow> error + real list" where
  "linspace64 start stop num =
     (if num < 0 then Inl ValueError
      else let n = nat num;
               delta = fl64 (stop - start);
               step = fl64 (delta / fl64 (real (n - 1)));
               y = map (\<lambda>i. fl64 (fl64 (fl64 (real i) * step) + start)) [0..<n]
           in Inr (if 1 < n then y[n - 1 := stop] else y))"

definition np_diff64 :: "real list \<Rightarrow> real list" where
  "np_diff64 xs = map2 (\<lambda>a b. fl64 (b - a)) xs (tl xs)"

definition n_pairs_per_cluster64 :: "int \<Rightarrow> int \<Rightarrow> error + int list" where
  "n_pairs_per_cluster64 n_pairs n_clusters =
     bind_err (linspace64 (fl64 0) (fl64 (real_of_int n_pairs)) (n_clusters + 1))
       (\<lambda>breaks. Inr (map astype_int (np_diff64 (map np_floor breaks))))"

text \<open>
  \<^verbatim>\<open>generate_pairs\<close> with this partition; the rest is as above.
\<close>

definition generate_pairs_blocks64 ::
  "int \<Rightarrow> int \<Rightarrow> rng
     \<Rightarrow> error + ((real \<times> real) list list \<times> (real \<times> real) list list \<times> rng)" where
  "generate_pairs_blocks64 n_pairs n_clusters g =
     bind_err (uniform (real_of_int PHI_MIN_DEGREES) (real_of_int PHI_MAX_DEGREES) n_clusters g)
       (\<lambda>(phis_center, g1).
     bind_err (uniform (real_of_int THETA_MIN_DEGREES) (real_of_int THETA_MAX_DEGREES) n_clusters g1)
       (\<lambda>(thetas_center, g2).
     bind_err (n_pairs_per_cluster64 n_pairs n_clusters) (\<lambda>counts.
     bind_err (py_truediv (PHI_MAX_DEGREES - PHI_MIN_DEGREES) n_clusters) (\<lambda>dphi.
     bind_err (py_truediv (THETA_MAX_DEGREES - THETA_MIN_DEGREES) n_clusters) (\<lambda>dtheta.
       let n_clusters' = (if n_clusters = 1 then 2 else n_clusters)
       in if length phis_center \<noteq> length thetas_center then Inl AssertionError
          else if length counts \<noteq> length phis_center then Inl AssertionError
          else sample_clusters [0..<nat (n_clusters' - 1)] counts phis_center thetas_center
                 dphi dtheta g2)))))"

definition generate_pairs64 ::
  "int \<Rightarrow> int \<Rightarrow> rng \<Rightarrow> error + ((real \<times> real) list \<times> (real \<times> real) list \<times> rng)" where
  "generate_pairs64 n_pairs n_clusters g =
     bind_err (generate_pairs_blocks64 n_pairs n_clusters g) (\<lambda>(phis_all, thetas_all, g').
     bind_err (vstack phis_all) (\<lambda>phis.
     bind_err (vstack thetas_all) (\<lambda>thetas. Inr (phis, thetas, g'))))"

subsection \<open>haversine_distance\<close>

text \<open>
  An elementwise operation on two one-dimensional arrays, with NumPy's broadcasting:
  equal lengths are paired up, an array of length one is repeated along the other, and
  any other two lengths raise.
\<close>

definition broadcast2 :: "('a \<Rightarrow> 'b \<Rightarrow> 'c) \<Rightarrow> 'a list \<Rightarrow> 'b list \<Rightarrow> error + 'c list" where
  "broadcast2 f xs ys =
     (if length xs = length ys then Inr (map2 f xs ys)
      else if length xs = 1 then Inr (map (f (hd xs)) ys)
      else if length ys = 1 then Inr (map (\<lambda>x. f x (hd ys)) xs)
      else Inl ValueError)"

definition radians :: "real \<Rightarrow> real" where
  "radians x = x * pi / 180"

text \<open>
  A float that may be NaN. \<^verbatim>\<open>np.sqrt\<close> of a negative number and \<^verbatim>\<open>np.asin\<close> of a
  number outside \<open>[-1, 1]\<close> are NaN (with a warning, not an exception), and NaN goes
  through every later operation. The distance is computed in the exact reading: sine,
  cosine, square root and arcsine are the real functions, not their rounded results.
\<close>

datatype np_float = Fin real | NaN

definition np_sqrt :: "real \<Rightarrow> np_float" where
  "np_sqrt x = (if x < 0 then NaN else Fin (sqrt x))"

fun np_asin :: "np_float \<Rightarrow> np_float" where
  "np_asin NaN = NaN"
| "np_asin (Fin x) = (if x < - 1 \<or> 1 < x then NaN else Fin (arcsin x))"

fun np_scale :: "real \<Rightarrow> np_float \<Rightarrow> np_float" where
  "np_scale c NaN = NaN"
| "np_scale c (Fin x) = Fin (c * x)"

text \<open>
  The return expression of line 132 at one entry \<open>a\<close> of
  \<^verbatim>\<open>root_term_0 + root_term_1\<close>: \<^verbatim>\<open>2 * radius * np.asin(np.sqrt(a))\<close>.
\<close>

definition distance_of_root :: "real \<Rightarrow> real \<Rightarrow> np_float" where
  "distance_of_root radius a = np_scale (2 * radius) (np_asin (np_sqrt a))"

definition haversine_distance ::
  "real list \<Rightarrow> real list \<Rightarrow> real list \<Rightarrow> real list \<Rightarrow> real \<Rightarrow> error + np_float list" where
  "haversine_distance phis0 thetas0 phis1 thetas1 radius =
     bind_err (broadcast2 (\<lambda>x y. x - y) phis0 phis1) (\<lambda>d.
       let dphis = map radians d;
           thetas0' = map radians thetas0;
           thetas1' = map radians thetas1
       in bind_err (broadcast2 (\<lambda>x y. x - y) thetas1' thetas0') (\<lambda>dthetas.
            let root_term_0 = map (\<lambda>x. (sin (x / 2))\<^sup>2) dthetas
            in bind_err (broadcast2 (\<lambda>x y. x * y) (map cos thetas0') (map cos thetas1')) (\<lambda>cc.
               bind_err (broadcast2 (\<lambda>x y. x * y) cc (map (\<lambda>x. (sin (x / 2))\<^sup>2) dphis))
                 (\<lambda>root_term_1.
               bind_err (broadcast2 (\<lambda>x y. x + y) root_term_0 root_term_1) (\<lambda>a.
                 Inr (map (distance_of_root radius) a))))))"

subsection \<open>Notions used to state the properties\<close>

text \<open>
  The breakpoint \<open>i\<close> of the partition in integer arithmetic: the floor of
  \<open>i * n_pairs / n_clusters\<close>.
\<close>

definition brk :: "int \<Rightarrow> int \<Rightarrow> nat \<Rightarrow> int" where
  "brk n k i = (int i * n) div k"

text \<open>
  The breakpoint \<open>i\<close> of the partition as \<open>float64\<close> computes it, for \<open>i\<close> below
  \<open>n_clusters\<close>: the rounded product of \<open>i\<close> and the rounded step. With the end
  point \<open>n_pairs\<close> and floored, these are the integers whose differences are the
  counts.
\<close>

definition brk64 :: "int \<Rightarrow> int \<Rightarrow> nat \<Rightarrow> real" where
  "brk64 n k i = fl64 (real i * fl64 (real_of_int n / real_of_int k))"

definition fbrk64 :: "int \<Rightarrow> int \<Rightarrow> nat \<Rightarrow> int" where
  "fbrk64 n k i = (if i = nat k then n else \<lfloor>brk64 n k i\<rfloor>)"

text \<open>The largest relative error of one rounding.\<close>

definition eps64 :: real where
  "eps64 = 1 / 2 ^ 53"

text \<open>The number of pairs that a call of \<^verbatim>\<open>generate_pairs\<close> returns.\<close>

definition pairs_emitted ::
  "error + ((real \<times> real) list \<times> (real \<times> real) list \<times> rng) \<Rightarrow> error + int" where
  "pairs_emitted r = (case r of Inl e \<Rightarrow> Inl e | Inr (phis, thetas, g) \<Rightarrow> Inr (int (length phis)))"

text \<open>
  The entry \<open>a\<close> of the haversine formula for one pair of points, from the coordinates
  in degrees.
\<close>

definition haversine_a :: "real \<Rightarrow> real \<Rightarrow> real \<Rightarrow> real \<Rightarrow> real" where
  "haversine_a phi0 theta0 phi1 theta1 =
     (let dphi = radians (phi0 - phi1);
          theta0' = radians theta0;
          theta1' = radians theta1;
          dtheta = theta1' - theta0'
      in (sin (dtheta / 2))\<^sup>2 + cos theta0' * cos theta1' * (sin (dphi / 2))\<^sup>2)"

text \<open>A fixed stream of draws for the concrete runs: \<open>0, 0.1, \<dots>, 0.9\<close> and again.\<close>

definition ramp :: "nat \<Rightarrow> real" where
  "ramp i = real (i mod 10) / 10"

text \<open>
  "The larger counts occur at earlier cluster positions": no count is followed, at any
  later position, by a larger one.
\<close>

definition larger_counts_first :: "int list \<Rightarrow> bool" where
  "larger_counts_first cs = sorted_wrt (\<lambda>a b. b \<le> a) cs"

text \<open>The longitudes and latitudes of a block all lie in the ranges of the constants.\<close>

definition phis_in_range :: "(real \<times> real) list \<Rightarrow> bool" where
  "phis_in_range phis = (\<forall>(p0, p1)\<in>set phis. - 180 \<le> p0 \<and> p0 \<le> 180 \<and> - 180 \<le> p1 \<and> p1 \<le> 180)"

definition thetas_in_range :: "(real \<times> real) list \<Rightarrow> bool" where
  "thetas_in_range thetas = (\<forall>(t0, t1)\<in>set thetas. - 90 \<le> t0 \<and> t0 \<le> 90 \<and> - 90 \<le> t1 \<and> t1 \<le> 90)"

section \<open>The partition in closed form\<close>

lemma linspace_breaks:
  assumes "1 \<le> k"
  shows "linspace 0 (real_of_int n) (k + 1)
           = Inr (map (\<lambda>i. real i * real_of_int n / real_of_int k) [0..<nat k + 1])"
proof -
  have k: "nat (k + 1) = nat k + 1" "nat k > 0"
    using assms by auto
  have "(map (\<lambda>i. real i * (real_of_int n / real (nat k)) + 0) [0..<nat k + 1])[nat k := real_of_int n]
      = map (\<lambda>i. real i * real_of_int n / real_of_int k) [0..<nat k + 1]"
    using assms by (intro nth_equalityI) (auto simp: nth_list_update nth_append)
  then show ?thesis
    using assms k by (simp add: linspace_def Let_def del: upt_Suc)
qed

lemma floor_brk: "1 \<le> k \<Longrightarrow> \<lfloor>real i * real_of_int n / real_of_int k\<rfloor> = brk n k i"
  unfolding brk_def
  by (metis floor_divide_of_int_eq of_int_mult of_int_of_nat_eq)

lemma np_diff_map: "np_diff (map f [0..<Suc m]) = map (\<lambda>i. f (Suc i) - f i) [0..<m]"
  unfolding np_diff_def
  by (intro nth_equalityI) (auto simp: nth_tl simp del: upt_Suc)

lemma counts_closed:
  assumes "1 \<le> k"
  shows "n_pairs_per_cluster n k = Inr (map (\<lambda>i. brk n k (Suc i) - brk n k i) [0..<nat k])"
proof -
  have "map astype_int (np_diff (map np_floor
            (map (\<lambda>i. real i * real_of_int n / real_of_int k) [0..<Suc (nat k)])))
      = map (\<lambda>i. brk n k (Suc i) - brk n k i) [0..<nat k]"
    unfolding map_map comp_def np_diff_map np_floor_def
    using assms by (simp only: floor_brk flip: of_int_diff) (simp add: astype_int_def)
  then show ?thesis
    using assms by (simp add: n_pairs_per_cluster_def bind_err_def linspace_breaks del: upt_Suc)
qed

lemma telescope: "sum_list (map (\<lambda>i. f (Suc i) - f i) [0..<m]) = f m - (f 0 :: int)"
  by (induction m) auto

lemma brk_mono: "0 \<le> n \<Longrightarrow> 1 \<le> k \<Longrightarrow> brk n k i \<le> brk n k (Suc i)"
  unfolding brk_def by (intro zdiv_mono1) (auto simp: algebra_simps)

lemma brk_0: "brk n k 0 = 0"
  by (simp add: brk_def)

lemma brk_k: "1 \<le> k \<Longrightarrow> brk n k (nat k) = n"
  by (simp add: brk_def)

section \<open>Properties of the partition\<close>

text \<open>
  Claim C4. For every \<open>n_pairs \<ge> 0\<close> and \<open>n_clusters \<ge> 1\<close> the partition is computed
  without an error, has one count for each cluster, every count is a non-negative
  integer, and the counts add up to exactly \<open>n_pairs\<close>.
\<close>

theorem n_pairs_per_cluster_nonneg_sum:
  assumes "0 \<le> n_pairs" and "1 \<le> n_clusters"
  shows "\<exists>cs. n_pairs_per_cluster n_pairs n_clusters = Inr cs \<and> length cs = nat n_clusters
           \<and> (\<forall>c\<in>set cs. 0 \<le> c) \<and> sum_list cs = n_pairs"
  using assms
  by (auto simp: counts_closed telescope brk_0 brk_k brk_mono simp del: upt_Suc)

theorem n_pairs_per_cluster_nonneg_sum_witness:
  "(0::int) \<le> 5 \<and> (1::int) \<le> 3 \<and>
   (\<exists>cs. n_pairs_per_cluster 5 3 = Inr cs \<and> length cs = nat 3
           \<and> (\<forall>c\<in>set cs. 0 \<le> c) \<and> sum_list cs = 5)"
  using n_pairs_per_cluster_nonneg_sum [of 5 3] by simp

section \<open>Sampling the clusters\<close>

lemma generate_cluster_ok:
  assumes "0 \<le> n"
  shows "\<exists>phis thetas g'. generate_cluster n phi theta dphi dtheta g = Inr (phis, thetas, g')
           \<and> length phis = nat n \<and> length thetas = nat n
           \<and> phis_in_range phis \<and> thetas_in_range thetas"
  using assms
  by (auto simp: generate_cluster_def uniform_pairs_def bind_err_def Let_def
        phis_in_range_def thetas_in_range_def clip_def
        PHI_MIN_DEGREES_def PHI_MAX_DEGREES_def THETA_MIN_DEGREES_def THETA_MAX_DEGREES_def)

lemma sample_clusters_ok:
  assumes "\<forall>i\<in>set idx. i < length counts \<and> i < length pc \<and> i < length tc \<and> 0 \<le> counts ! i"
  shows "\<exists>pa ta g'. sample_clusters idx counts pc tc dphi dtheta g = Inr (pa, ta, g')
           \<and> map length pa = map (\<lambda>i. nat (counts ! i)) idx
           \<and> map length ta = map (\<lambda>i. nat (counts ! i)) idx
           \<and> (\<forall>b\<in>set pa. phis_in_range b) \<and> (\<forall>b\<in>set ta. thetas_in_range b)"
  using assms
proof (induction idx arbitrary: g)
  case Nil
  then show ?case by simp
next
  case (Cons i rest)
  from Cons.prems have i: "i < length counts" "i < length pc" "i < length tc" "0 \<le> counts ! i"
    by simp_all
  from generate_cluster_ok [OF i(4)] obtain phis thetas g1 where
    c: "generate_cluster (counts ! i) (pc ! i) (tc ! i) dphi dtheta g = Inr (phis, thetas, g1)"
       "length phis = nat (counts ! i)" "length thetas = nat (counts ! i)"
       "phis_in_range phis" "thetas_in_range thetas"
    by blast
  from Cons.prems have "\<forall>i\<in>set rest. i < length counts \<and> i < length pc \<and> i < length tc \<and> 0 \<le> counts ! i"
    by simp
  from Cons.IH [OF this, of g1] obtain pa ta g2 where
    r: "sample_clusters rest counts pc tc dphi dtheta g1 = Inr (pa, ta, g2)"
       "map length pa = map (\<lambda>i. nat (counts ! i)) rest"
       "map length ta = map (\<lambda>i. nat (counts ! i)) rest"
       "\<forall>b\<in>set pa. phis_in_range b" "\<forall>b\<in>set ta. thetas_in_range b"
    by blast
  show ?case
    using i c r by simp
qed

lemma brk_nonneg: "0 \<le> n \<Longrightarrow> 1 \<le> k \<Longrightarrow> 0 \<le> brk n k i"
  unfolding brk_def by (simp add: pos_imp_zdiv_nonneg_iff)

lemma nat_telescope:
  assumes "0 \<le> n" "1 \<le> k"
  shows "sum_list (map (\<lambda>i. nat (brk n k (Suc i) - brk n k i)) [0..<m]) = nat (brk n k m)"
proof (induction m)
  case 0
  then show ?case by (simp add: brk_0)
next
  case (Suc m)
  then show ?case
    using brk_mono [OF assms, of m] brk_nonneg [OF assms, of m] by simp
qed

lemma generate_pairs_blocks_ok:
  assumes "0 \<le> n" "1 \<le> k"
  shows "\<exists>pa ta g'. generate_pairs_blocks n k g = Inr (pa, ta, g')
           \<and> map length pa = map (\<lambda>i. nat (brk n k (Suc i) - brk n k i)) [0..<nat (max k 2 - 1)]
           \<and> map length ta = map (\<lambda>i. nat (brk n k (Suc i) - brk n k i)) [0..<nat (max k 2 - 1)]
           \<and> (\<forall>b\<in>set pa. phis_in_range b) \<and> (\<forall>b\<in>set ta. thetas_in_range b)"
proof -
  let ?cs = "map (\<lambda>i. brk n k (Suc i) - brk n k i) [0..<nat k]"
  let ?idx = "[0..<nat (max k 2 - 1)]"
  obtain pc g1 where pc: "uniform (real_of_int PHI_MIN_DEGREES) (real_of_int PHI_MAX_DEGREES) k g = Inr (pc, g1)"
    "length pc = nat k"
    using assms by (simp add: uniform_def Let_def)
  obtain tc g2 where tc: "uniform (real_of_int THETA_MIN_DEGREES) (real_of_int THETA_MAX_DEGREES) k g1 = Inr (tc, g2)"
    "length tc = nat k"
    using assms by (simp add: uniform_def Let_def)
  have idx: "\<forall>i\<in>set ?idx. i < length ?cs \<and> i < length pc \<and> i < length tc \<and> 0 \<le> ?cs ! i"
    using assms pc(2) tc(2) brk_mono [OF assms] by (auto simp: max_def)
  have n': "(if k = 1 then 2 else k) = max k 2"
    using assms by (auto simp: max_def)
  have e: "generate_pairs_blocks n k g
      = sample_clusters ?idx ?cs pc tc (360 / real_of_int k) (180 / real_of_int k) g2"
    using assms pc tc
    by (simp add: generate_pairs_blocks_def counts_closed bind_err_def py_truediv_def n'
        PHI_MIN_DEGREES_def PHI_MAX_DEGREES_def THETA_MIN_DEGREES_def THETA_MAX_DEGREES_def)
  from sample_clusters_ok [OF idx, of "360 / real_of_int k" "180 / real_of_int k" g2]
  obtain pa ta g' where
    r: "sample_clusters ?idx ?cs pc tc (360 / real_of_int k) (180 / real_of_int k) g2 = Inr (pa, ta, g')"
       "map length pa = map (\<lambda>i. nat (?cs ! i)) ?idx"
       "map length ta = map (\<lambda>i. nat (?cs ! i)) ?idx"
       "\<forall>b\<in>set pa. phis_in_range b" "\<forall>b\<in>set ta. thetas_in_range b"
    by blast
  have "map (\<lambda>i. nat (?cs ! i)) ?idx = map (\<lambda>i. nat (brk n k (Suc i) - brk n k i)) ?idx"
    using assms by (auto simp: max_def)
  then show ?thesis
    using e r by simp
qed

lemma generate_pairs_ok:
  assumes "0 \<le> n" "1 \<le> k"
  shows "\<exists>phis thetas g'. generate_pairs n k g = Inr (phis, thetas, g')
           \<and> length phis = nat (brk n k (nat (max k 2 - 1)))
           \<and> length thetas = nat (brk n k (nat (max k 2 - 1)))
           \<and> phis_in_range phis \<and> thetas_in_range thetas"
proof -
  let ?idx = "[0..<nat (max k 2 - 1)]"
  let ?f = "\<lambda>i. nat (brk n k (Suc i) - brk n k i)"
  from generate_pairs_blocks_ok [OF assms, of g] obtain pa ta g' where
    b: "generate_pairs_blocks n k g = Inr (pa, ta, g')"
       "map length pa = map ?f ?idx" "map length ta = map ?f ?idx"
       "\<forall>b\<in>set pa. phis_in_range b" "\<forall>b\<in>set ta. thetas_in_range b"
    by blast
  have "length (map length pa) = length ?idx" "length (map length ta) = length ?idx"
    unfolding b by simp_all
  then have ne: "pa \<noteq> []" "ta \<noteq> []"
    by (auto simp: max_def split: if_splits)
  have "length (concat pa) = sum_list (map ?f ?idx)" "length (concat ta) = sum_list (map ?f ?idx)"
    by (simp_all add: length_concat b)
  then have len: "length (concat pa) = nat (brk n k (nat (max k 2 - 1)))"
     "length (concat ta) = nat (brk n k (nat (max k 2 - 1)))"
    by (simp_all only: nat_telescope [OF assms])
  have "phis_in_range (concat pa)" "thetas_in_range (concat ta)"
    using b(4,5) unfolding phis_in_range_def thetas_in_range_def by auto
  then show ?thesis
    using b(1) ne len by (simp add: generate_pairs_def bind_err_def vstack_def)
qed




text \<open>
  Claim C3. For every \<open>n_pairs \<ge> 0\<close> and \<open>n_clusters \<ge> 1\<close>, \<^verbatim>\<open>generate_pairs\<close>
  returns, and every coordinate it returns has its longitude in \<open>[-180, 180]\<close> and its
  latitude in \<open>[-90, 90]\<close>, whatever the random draws are: each drawn value is clipped
  into the range, none is rejected or drawn again.
\<close>

theorem generate_pairs_in_range:
  assumes "0 \<le> n_pairs" "1 \<le> n_clusters"
  shows "\<exists>phis thetas g'. generate_pairs n_pairs n_clusters g = Inr (phis, thetas, g')
           \<and> phis_in_range phis \<and> thetas_in_range thetas"
  using generate_pairs_ok [OF assms, of g] by blast

theorem generate_pairs_in_range_witness:
  "(0::int) \<le> 4 \<and> (1::int) \<le> 2 \<and>
   (\<exists>phis thetas g'. generate_pairs 4 2 \<lparr>draws = ramp, pos = 0\<rparr> = Inr (phis, thetas, g')
           \<and> phis_in_range phis \<and> thetas_in_range thetas)"
proof -
  have h: "(0::int) \<le> 4" "(1::int) \<le> 2"
    by simp_all
  show ?thesis
    using h generate_pairs_in_range [OF h, of "\<lparr>draws = ramp, pos = 0\<rparr>"] by blast
qed

text \<open>
  Claim C6, as stated, fails: with one cluster and three pairs the partition allocates
  all three pairs to the one cluster, and \<^verbatim>\<open>generate_pairs\<close> emits all three.
\<close>

theorem generate_pairs_single_cluster_counterexample:
  "n_pairs_per_cluster 3 1 = Inr [3] \<and>
   generate_pairs 3 1 \<lparr>draws = ramp, pos = 0\<rparr> =
     Inr ([(- 180, - 180), (- 180, - 180), (- 108, - 36)],
          [(36, 72), (- 90, - 90), (- 90, - 90)],
          \<lparr>draws = ramp, pos = 14\<rparr>)"
  by (simp add: generate_pairs_def generate_pairs_blocks_def counts_closed brk_def
        uniform_def uniform_pairs_def generate_cluster_def bind_err_def py_truediv_def
        vstack_def clip_def ramp_def upt_conv_Cons
        PHI_MIN_DEGREES_def PHI_MAX_DEGREES_def THETA_MIN_DEGREES_def THETA_MAX_DEGREES_def)

text \<open>
  Claim C6, amended. When \<open>n_clusters = 1\<close> the single cluster's count is not
  dropped: for every \<open>n_pairs \<ge> 0\<close> the partition allocates all \<open>n_pairs\<close> pairs to
  the one cluster and \<^verbatim>\<open>generate_pairs\<close> emits exactly \<open>n_pairs\<close> pairs.
\<close>

theorem generate_pairs_single_cluster:
  assumes "0 \<le> n_pairs"
  shows "n_pairs_per_cluster n_pairs 1 = Inr [n_pairs] \<and>
     (\<exists>phis thetas g'. generate_pairs n_pairs 1 g = Inr (phis, thetas, g')
        \<and> length phis = nat n_pairs \<and> length thetas = nat n_pairs)"
proof -
  have "n_pairs_per_cluster n_pairs 1 = Inr [n_pairs]"
    by (simp add: counts_closed brk_def)
  moreover have "brk n_pairs 1 (nat (max 1 2 - 1)) = n_pairs"
    by (simp add: brk_def)
  ultimately show ?thesis
    using generate_pairs_ok [OF assms, of 1 g] by auto
qed

theorem generate_pairs_single_cluster_witness:
  "(0::int) \<le> 3 \<and> n_pairs_per_cluster 3 1 = Inr [3] \<and>
     (\<exists>phis thetas g'. generate_pairs 3 1 \<lparr>draws = ramp, pos = 0\<rparr> = Inr (phis, thetas, g')
        \<and> length phis = nat 3 \<and> length thetas = nat 3)"
proof -
  have h: "(0::int) \<le> 3"
    by simp
  show ?thesis
    using h generate_pairs_single_cluster [OF h, of "\<lparr>draws = ramp, pos = 0\<rparr>"] by blast
qed

section \<open>Rounding to float64\<close>

lemma rhe_of_int: "round_half_even (real_of_int z) = z"
  by (simp add: round_half_even_def)

lemma rhe_bounds: "\<lfloor>x\<rfloor> \<le> round_half_even x" "round_half_even x \<le> \<lfloor>x\<rfloor> + 1"
  by (simp_all add: round_half_even_def Let_def)

lemma rhe_mono:
  assumes "x \<le> y"
  shows "round_half_even x \<le> round_half_even y"
proof (cases "\<lfloor>x\<rfloor> = \<lfloor>y\<rfloor>")
  case True
  then show ?thesis
    using assms by (auto simp: round_half_even_def Let_def)
next
  case False
  then have "\<lfloor>x\<rfloor> + 1 \<le> \<lfloor>y\<rfloor>"
    using floor_mono [OF assms] by linarith
  then show ?thesis
    using rhe_bounds(2) [of x] rhe_bounds(1) [of y] by linarith
qed

lemma rhe_error: "\<bar>real_of_int (round_half_even x) - x\<bar> \<le> 1 / 2"
  unfolding round_half_even_def Let_def by (auto simp: abs_le_iff)


lemma floor_log2:
  assumes "0 < x"
  shows "2 powr real_of_int \<lfloor>log 2 x\<rfloor> \<le> x" "x < 2 powr (real_of_int \<lfloor>log 2 x\<rfloor> + 1)"
  using assms by (simp_all add: powr_le_iff less_powr_iff)

lemma floor_log2_eq:
  assumes "2 powr real_of_int p \<le> x" "x < 2 powr (real_of_int p + 1)"
  shows "\<lfloor>log 2 x\<rfloor> = p"
proof -
  have "0 < 2 powr real_of_int p"
    by simp
  with assms(1) have x: "0 < x"
    by linarith
  have "real_of_int p \<le> log 2 x" "log 2 x < real_of_int p + 1"
    using assms x by (simp_all add: powr_le_iff less_powr_iff)
  then show ?thesis
    by (intro floor_unique) simp_all
qed

text \<open>The shape of a rounded positive number: mantissa and exponent.\<close>

lemma fl64_pos:
  assumes "0 < x"
  obtains E M where "E = \<lfloor>log 2 x\<rfloor>"
    "M = round_half_even (x / 2 powr real_of_int (E - 52))"
    "fl64 x = real_of_int M * 2 powr real_of_int (E - 52)"
    "2 ^ 52 \<le> M" "M \<le> 2 ^ 53"
proof -
  define E where "E = \<lfloor>log 2 x\<rfloor>"
  define m where "m = x / 2 powr real_of_int (E - 52)"
  define M where "M = round_half_even m"
  have b: "2 powr real_of_int E \<le> x" "x < 2 powr (real_of_int E + 1)"
    unfolding E_def using floor_log2 [OF assms] by simp_all
  have p: "2 powr real_of_int (E - 52) = 2 powr real_of_int E / 2 ^ 52"
    by (simp add: powr_diff)
  have m: "m = x / 2 powr real_of_int E * 2 ^ 52"
    unfolding m_def p by simp
  have "1 \<le> x / 2 powr real_of_int E" "x / 2 powr real_of_int E < 2"
    using b by (simp_all add: powr_add pos_le_divide_eq pos_divide_less_eq mult.commute)
  then have "1 * 2 ^ 52 \<le> x / 2 powr real_of_int E * 2 ^ 52"
      "x / 2 powr real_of_int E * 2 ^ 52 \<le> 2 * 2 ^ 52"
    by (intro mult_right_mono; simp)+
  then have mb: "real_of_int (2 ^ 52) \<le> m" "m \<le> real_of_int (2 ^ 53)"
    unfolding m by simp_all
  have "round_half_even (real_of_int (2 ^ 52)) \<le> M" "M \<le> round_half_even (real_of_int (2 ^ 53))"
    unfolding M_def by (rule rhe_mono [OF mb(1)], rule rhe_mono [OF mb(2)])
  then have M: "2 ^ 52 \<le> M" "M \<le> 2 ^ 53"
    unfolding rhe_of_int .
  have "fl64 x = real_of_int M * 2 powr real_of_int (E - 52)"
    using assms unfolding fl64_def M_def m_def E_def by (simp add: Let_def)
  then show ?thesis
    using M that [of E M] unfolding M_def m_def E_def by blast
qed

lemma fl64_0: "fl64 0 = 0"
  by (simp add: fl64_def)

lemma fl64_eval:
  assumes "2 powr real_of_int p \<le> x" "x < 2 powr (real_of_int p + 1)"
  shows "fl64 x = real_of_int (round_half_even (x / 2 powr real_of_int (p - 52))) * 2 powr real_of_int (p - 52)"
proof -
  have "0 < 2 powr real_of_int p"
    by simp
  with assms(1) have x: "0 < x"
    by linarith
  then show ?thesis
    unfolding fl64_def using floor_log2_eq [OF assms] by (simp add: Let_def)
qed

lemma fl64_bounds:
  assumes "0 < x"
  shows "2 powr real_of_int \<lfloor>log 2 x\<rfloor> \<le> fl64 x" "fl64 x \<le> 2 powr (real_of_int \<lfloor>log 2 x\<rfloor> + 1)"
proof -
  from fl64_pos [OF assms] obtain E M where
    f: "E = \<lfloor>log 2 x\<rfloor>" "fl64 x = real_of_int M * 2 powr real_of_int (E - 52)"
       "2 ^ 52 \<le> M" "M \<le> 2 ^ 53"
    by metis
  have p: "2 powr real_of_int (E - 52) = 2 powr real_of_int E / 2 ^ 52"
    by (simp add: powr_diff)
  have "real_of_int (2 ^ 52) \<le> real_of_int M" "real_of_int M \<le> real_of_int (2 ^ 53)"
    using f(3,4) by (simp_all only: of_int_le_iff)
  then have "2 ^ 52 \<le> real_of_int M" "real_of_int M \<le> 2 ^ 53"
    by simp_all
  then have "2 ^ 52 * (2 powr real_of_int E / 2 ^ 52) \<le> real_of_int M * (2 powr real_of_int E / 2 ^ 52)"
    "real_of_int M * (2 powr real_of_int E / 2 ^ 52) \<le> 2 ^ 53 * (2 powr real_of_int E / 2 ^ 52)"
    by (intro mult_right_mono; simp)+
  then show "2 powr real_of_int \<lfloor>log 2 x\<rfloor> \<le> fl64 x" "fl64 x \<le> 2 powr (real_of_int \<lfloor>log 2 x\<rfloor> + 1)"
    unfolding f(2) p f(1) [symmetric] by (simp_all add: powr_add)
qed

lemma fl64_pos_gt: "0 < x \<Longrightarrow> 0 < fl64 x"
  using fl64_bounds(1) [of x] powr_gt_zero [of 2 "real_of_int \<lfloor>log 2 x\<rfloor>"] by linarith

lemma fl64_nonneg: "0 \<le> x \<Longrightarrow> 0 \<le> fl64 x"
  using fl64_pos_gt [of x] by (cases "x = 0") (simp_all add: fl64_0 less_eq_real_def)

lemma fl64_mono:
  assumes "0 \<le> x" "x \<le> y"
  shows "fl64 x \<le> fl64 y"
proof (cases "x = 0")
  case True
  then show ?thesis
    using assms fl64_nonneg [of y] by (simp add: fl64_0)
next
  case False
  then have x: "0 < x" and y: "0 < y"
    using assms by simp_all
  have le: "\<lfloor>log 2 x\<rfloor> \<le> \<lfloor>log 2 y\<rfloor>"
    using x y assms(2) by (intro floor_mono) simp
  show ?thesis
  proof (cases "\<lfloor>log 2 x\<rfloor> = \<lfloor>log 2 y\<rfloor>")
    case True
    define c where "c = 2 powr real_of_int (\<lfloor>log 2 y\<rfloor> - 52)"
    have c: "0 < c"
      unfolding c_def by simp
    have "x / c \<le> y / c"
      using assms(2) c by (simp add: divide_right_mono)
    then have "real_of_int (round_half_even (x / c)) \<le> real_of_int (round_half_even (y / c))"
      by (simp only: of_int_le_iff rhe_mono)
    then have "real_of_int (round_half_even (x / c)) * c \<le> real_of_int (round_half_even (y / c)) * c"
      using c by (intro mult_right_mono) simp_all
    then show ?thesis
      using x y True unfolding fl64_def c_def by (simp add: Let_def)
  next
    case False
    then have "real_of_int \<lfloor>log 2 x\<rfloor> + 1 \<le> real_of_int \<lfloor>log 2 y\<rfloor>"
      using le by linarith
    then have "2 powr (real_of_int \<lfloor>log 2 x\<rfloor> + 1) \<le> 2 powr real_of_int \<lfloor>log 2 y\<rfloor>"
      by (simp only: powr_le_cancel_iff one_less_numeral_iff semiring_norm)
    then show ?thesis
      using fl64_bounds(2) [OF x] fl64_bounds(1) [OF y] by linarith
  qed
qed

lemma fl64_dyadic:
  assumes "0 < M" "M \<le> 2 ^ 53"
  shows "fl64 (real_of_int M * 2 powr real_of_int c) = real_of_int M * 2 powr real_of_int c"
proof -
  define b where "b = \<lfloor>log 2 (real_of_int M)\<rfloor>"
  have M: "0 < real_of_int M"
    using assms(1) by simp
  have bb: "2 powr real_of_int b \<le> real_of_int M" "real_of_int M < 2 powr (real_of_int b + 1)"
    unfolding b_def using floor_log2 [OF M] by simp_all
  have "real_of_int M \<le> real_of_int (2 ^ 53)"
    using assms(2) by (simp only: of_int_le_iff)
  then have M53: "real_of_int M \<le> 2 powr 53"
    by simp
  with bb(1) have "2 powr real_of_int b \<le> 2 powr 53"
    by linarith
  then have b53: "b \<le> 53"
    by (simp only: powr_le_cancel_iff one_less_numeral_iff semiring_norm)
  obtain Z where Z: "real_of_int M * 2 powr real_of_int (52 - b) = real_of_int Z"
  proof (cases "b \<le> 52")
    case True
    then have "real_of_int (52 - b) = real (nat (52 - b))"
      by simp
    then have "2 powr real_of_int (52 - b) = 2 ^ nat (52 - b)"
      by (simp only: powr_realpow zero_less_numeral)
    then have "real_of_int M * 2 powr real_of_int (52 - b) = real_of_int (M * 2 ^ nat (52 - b))"
      by simp
    then show ?thesis
      by (rule that)
  next
    case False
    then have b: "b = 53"
      using b53 by simp
    then have "2 powr 53 \<le> real_of_int M"
      using bb(1) by simp
    with M53 have "real_of_int M = 2 powr 53"
      by simp
    then have "real_of_int M * 2 powr real_of_int (52 - b) = 2 powr 53 * 2 powr (- 1)"
      unfolding b by simp
    also have "\<dots> = real_of_int (2 ^ 52)"
      by (simp add: powr_minus)
    finally show ?thesis
      by (rule that)
  qed
  let ?x = "real_of_int M * 2 powr real_of_int c"
  have "2 powr real_of_int b * 2 powr real_of_int c \<le> ?x" "?x < 2 powr (real_of_int b + 1) * 2 powr real_of_int c"
    using bb by (simp_all)
  then have "2 powr real_of_int (b + c) \<le> ?x" "?x < 2 powr (real_of_int (b + c) + 1)"
    by (simp_all add: powr_add mult.commute mult.left_commute)
  from fl64_eval [OF this]
  have "fl64 ?x = real_of_int (round_half_even (?x / 2 powr real_of_int (b + c - 52))) * 2 powr real_of_int (b + c - 52)" .
  moreover have "?x / 2 powr real_of_int (b + c - 52) = real_of_int M * 2 powr real_of_int (52 - b)"
    by (simp add: powr_diff powr_add field_simps)
  moreover have "real_of_int Z * 2 powr real_of_int (b + c - 52) = ?x"
    unfolding Z [symmetric] by (simp add: powr_diff powr_add field_simps)
  ultimately show ?thesis
    by (simp only: Z rhe_of_int)
qed

lemma fl64_int:
  assumes "0 \<le> z" "z \<le> 2 ^ 53"
  shows "fl64 (real_of_int z) = real_of_int z"
proof (cases "z = 0")
  case True
  then show ?thesis by (simp add: fl64_0)
next
  case False
  then have "0 < z"
    using assms by simp
  from fl64_dyadic [OF this assms(2), of 0] show ?thesis
    by simp
qed

lemma fl64_idem:
  assumes "0 \<le> x"
  shows "fl64 (fl64 x) = fl64 x"
proof (cases "x = 0")
  case True
  then show ?thesis by (simp add: fl64_0)
next
  case False
  then have "0 < x"
    using assms by simp
  from fl64_pos [OF this] obtain E M where
    f: "fl64 x = real_of_int M * 2 powr real_of_int (E - 52)" "2 ^ 52 \<le> M" "M \<le> 2 ^ 53"
    by metis
  have "0 < M"
    using f(2) by (rule less_le_trans [rotated]) simp
  from fl64_dyadic [OF this f(3)] show ?thesis
    unfolding f(1) .
qed

lemma fl64_error:
  assumes "0 < x"
  shows "\<bar>fl64 x - x\<bar> \<le> x / 2 ^ 53"
proof -
  define E where "E = \<lfloor>log 2 x\<rfloor>"
  define c where "c = 2 powr real_of_int (E - 52)"
  have c: "0 < c"
    unfolding c_def by simp
  have f: "fl64 x = real_of_int (round_half_even (x / c)) * c"
    using assms unfolding fl64_def c_def E_def by (simp add: Let_def)
  have "fl64 x - x = (real_of_int (round_half_even (x / c)) - x / c) * c"
    unfolding f using c by (simp add: algebra_simps)
  then have "\<bar>fl64 x - x\<bar> = \<bar>real_of_int (round_half_even (x / c)) - x / c\<bar> * c"
    using c by (simp add: abs_mult)
  also have "\<dots> \<le> 1 / 2 * c"
    using c by (intro mult_right_mono rhe_error) simp
  also have "1 / 2 * c = 2 powr real_of_int E / 2 ^ 53"
    unfolding c_def by (simp add: powr_diff)
  also have "\<dots> \<le> x / 2 ^ 53"
    using floor_log2(1) [OF assms] unfolding E_def by (intro divide_right_mono) simp_all
  finally show ?thesis .
qed

lemma eps64_pos: "0 < eps64"
  by (simp add: eps64_def)

lemma fl64_error_eps: "0 < x \<Longrightarrow> \<bar>fl64 x - x\<bar> \<le> x * eps64"
  using fl64_error [of x] unfolding eps64_def by (simp only: times_divide_eq_right mult.right_neutral)

lemma fl64_upper: "0 \<le> x \<Longrightarrow> fl64 x \<le> x * (1 + eps64)"
proof (cases "x = 0")
  case True
  then show ?thesis by (simp add: fl64_0)
next
  case False
  assume "0 \<le> x"
  with False have "0 < x"
    by simp
  from fl64_error_eps [OF this] have "fl64 x - x \<le> x * eps64"
    by linarith
  then show ?thesis
    by (simp add: algebra_simps)
qed

lemma fl64_lower: "0 \<le> x \<Longrightarrow> x * (1 - eps64) \<le> fl64 x"
proof (cases "x = 0")
  case True
  then show ?thesis by (simp add: fl64_0)
next
  case False
  assume "0 \<le> x"
  with False have "0 < x"
    by simp
  from fl64_error_eps [OF this] have "x - fl64 x \<le> x * eps64"
    by linarith
  then show ?thesis
    by (simp add: algebra_simps)
qed

lemma eps64_le_1: "eps64 \<le> 1"
  by (simp add: eps64_def)

lemma fl64_near:
  assumes "0 \<le> b" "0 \<le> S" "b * (1 - eps64) \<le> S" "S \<le> b * (1 + eps64)"
  shows "\<bar>fl64 S - b\<bar> \<le> 3 * eps64 * b"
proof -
  define e where "e = eps64"
  have e: "0 < e" "e \<le> 1"
    unfolding e_def by (rule eps64_pos, rule eps64_le_1)
  have ee: "e * e \<le> e"
    using e by (metis less_eq_real_def mult_left_le mult.commute)
  have eb: "0 \<le> e * b" "e * e * b \<le> e * b"
    using e assms(1) ee by (simp_all add: mult_right_mono)
  have u: "fl64 S \<le> S * (1 + e)" and l: "S * (1 - e) \<le> fl64 S"
    unfolding e_def using assms(2) by (rule fl64_upper, rule fl64_lower)
  have "S * (1 + e) \<le> b * (1 + e) * (1 + e)"
    using assms(4) e unfolding e_def [symmetric] by (intro mult_right_mono) simp_all
  also have "\<dots> = b + 2 * (e * b) + e * e * b"
    by (simp add: algebra_simps)
  finally have up: "fl64 S \<le> b + 3 * (e * b)"
    using u eb by linarith
  have "b - 2 * (e * b) + e * e * b = b * (1 - e) * (1 - e)"
    by (simp add: algebra_simps)
  also have "\<dots> \<le> S * (1 - e)"
    using assms(3) e unfolding e_def [symmetric] by (intro mult_right_mono) simp_all
  finally have "b - 2 * (e * b) + e * e * b \<le> fl64 S"
    using l by linarith
  moreover have "0 \<le> e * e * b"
    using e assms(1) by simp
  ultimately have lo: "b - 3 * (e * b) \<le> fl64 S"
    using eb by linarith
  show ?thesis
    unfolding e_def [symmetric] using up lo by (simp add: abs_le_iff algebra_simps)
qed

lemma pow51_eps64: "2 ^ 51 * eps64 = 1 / 4"
  by (simp add: eps64_def)

lemma pow53_eps64: "2 ^ 53 * eps64 = 1"
  by (simp add: eps64_def)

section \<open>The partition in float64\<close>

lemma brk64_0: "brk64 n k 0 = 0"
  by (simp add: brk64_def fl64_0)

lemma step_nonneg: "0 \<le> n \<Longrightarrow> 1 \<le> k \<Longrightarrow> 0 \<le> fl64 (real_of_int n / real_of_int k)"
  by (intro fl64_nonneg) simp

lemma brk64_mono:
  assumes "0 \<le> n" "1 \<le> k" "i \<le> j"
  shows "brk64 n k i \<le> brk64 n k j"
  unfolding brk64_def using assms step_nonneg [OF assms(1,2)]
  by (intro fl64_mono mult_nonneg_nonneg mult_right_mono) simp_all

lemma brk64_nonneg: "0 \<le> n \<Longrightarrow> 1 \<le> k \<Longrightarrow> 0 \<le> brk64 n k i"
  using brk64_mono [of n k 0 i] by (simp add: brk64_0)

lemma brk64_le:
  assumes "0 \<le> n" "n \<le> 2 ^ 53" "1 \<le> k" "k \<le> 2 ^ 53" "i < nat k"
  shows "brk64 n k i \<le> real_of_int n"
proof -
  define x where "x = real_of_int n / real_of_int k"
  define S where "S = fl64 x"
  define K where "K = real_of_int k"
  have "real_of_int k \<le> real_of_int (2 ^ 53)"
    using assms(4) by (simp only: of_int_le_iff)
  then have k: "1 \<le> K" "(K - 1) * eps64 \<le> 1"
    using assms(3) unfolding K_def eps64_def by simp_all
  have x: "0 \<le> x" "K * x = real_of_int n"
    unfolding x_def K_def using assms by simp_all
  have S: "0 \<le> S" "S \<le> x * (1 + eps64)"
    unfolding S_def using x(1) by (simp_all add: fl64_nonneg fl64_upper)
  have i: "real i \<le> K - 1"
    unfolding K_def using assms(5) by linarith
  have "real i * S \<le> (K - 1) * S"
    using i S(1) by (intro mult_right_mono)
  also have "\<dots> \<le> (K - 1) * (x * (1 + eps64))"
    using S(2) k(1) by (intro mult_left_mono) simp_all
  also have "\<dots> = K * x - x + (K - 1) * eps64 * x"
    by (simp add: algebra_simps)
  also have "\<dots> \<le> K * x - x + 1 * x"
    using k(2) x(1) by (intro add_left_mono mult_right_mono)
  finally have "real i * S \<le> real_of_int n"
    using x(2) by simp
  moreover have "0 \<le> real i * S"
    using S(1) by simp
  ultimately have "fl64 (real i * S) \<le> fl64 (real_of_int n)"
    by (intro fl64_mono)
  then show ?thesis
    unfolding brk64_def S_def x_def using fl64_int [OF assms(1,2)] by simp
qed

lemma fl64_nat: "int i \<le> 2 ^ 53 \<Longrightarrow> fl64 (real i) = real i"
  using fl64_int [of "int i"] by simp

lemma linspace64_breaks:
  assumes "0 \<le> n" "n \<le> 2 ^ 53" "1 \<le> k" "k \<le> 2 ^ 53"
  shows "linspace64 (fl64 0) (fl64 (real_of_int n)) (k + 1)
           = Inr (map (\<lambda>i. if i = nat k then real_of_int n else brk64 n k i) [0..<nat k + 1])"
proof -
  have k: "nat (k + 1) = nat k + 1" "nat k > 0" "real (nat k) = real_of_int k"
    using assms by auto
  have fk: "fl64 (real_of_int k) = real_of_int k"
    using assms by (intro fl64_int) simp_all
  have fn: "fl64 (real_of_int n) = real_of_int n"
    using assms by (intro fl64_int)
  let ?S = "fl64 (real_of_int n / real_of_int k)"
  have y: "fl64 (fl64 (fl64 (real i) * ?S) + 0) = brk64 n k i" if "i \<le> nat k" for i
  proof -
    have "int i \<le> 2 ^ 53"
      using that assms by linarith
    then have "fl64 (real i) = real i"
      by (rule fl64_nat)
    moreover have "0 \<le> real i * ?S"
      using step_nonneg [OF assms(1,3)] by simp
    ultimately show ?thesis
      unfolding brk64_def by (simp add: fl64_idem)
  qed
  have "(map (\<lambda>i. fl64 (fl64 (fl64 (real i) * ?S) + 0)) [0..<nat k + 1])[nat k := real_of_int n]
      = map (\<lambda>i. if i = nat k then real_of_int n else brk64 n k i) [0..<nat k + 1]"
    using y by (intro nth_equalityI) (auto simp: nth_list_update nth_append)
  then show ?thesis
    using k by (simp add: linspace64_def Let_def fl64_0 fn fk del: upt_Suc)
qed

lemma np_diff64_map: "np_diff64 (map f [0..<Suc m]) = map (\<lambda>i. fl64 (f (Suc i) - f i)) [0..<m]"
  unfolding np_diff64_def
  by (intro nth_equalityI) (auto simp: nth_tl simp del: upt_Suc)

lemma fbrk64_bounds:
  assumes "0 \<le> n" "n \<le> 2 ^ 53" "1 \<le> k" "k \<le> 2 ^ 53" "i \<le> nat k"
  shows "0 \<le> fbrk64 n k i" "fbrk64 n k i \<le> n"
proof -
  show "0 \<le> fbrk64 n k i"
    using assms(1) brk64_nonneg [OF assms(1,3), of i] by (simp add: fbrk64_def)
  show "fbrk64 n k i \<le> n"
  proof (cases "i = nat k")
    case True
    then show ?thesis by (simp add: fbrk64_def)
  next
    case False
    then have "i < nat k"
      using assms(5) by simp
    from brk64_le [OF assms(1-4) this] have "\<lfloor>brk64 n k i\<rfloor> \<le> n"
      by (simp add: floor_le_iff)
    then show ?thesis
      using False by (simp add: fbrk64_def)
  qed
qed

lemma fbrk64_mono:
  assumes "0 \<le> n" "n \<le> 2 ^ 53" "1 \<le> k" "k \<le> 2 ^ 53" "i < nat k"
  shows "fbrk64 n k i \<le> fbrk64 n k (Suc i)"
proof (cases "Suc i = nat k")
  case True
  then show ?thesis
    using fbrk64_bounds(2) [OF assms(1-4), of i] assms(5) by (simp add: fbrk64_def)
next
  case False
  then show ?thesis
    using assms(5) brk64_mono [OF assms(1,3), of i "Suc i"]
    by (simp add: fbrk64_def floor_mono)
qed

lemma fbrk64_0: "1 \<le> k \<Longrightarrow> fbrk64 n k 0 = 0"
  by (simp add: fbrk64_def brk64_0)

lemma fbrk64_k: "fbrk64 n k (nat k) = n"
  by (simp add: fbrk64_def)

lemma counts64_closed:
  assumes "0 \<le> n" "n \<le> 2 ^ 53" "1 \<le> k" "k \<le> 2 ^ 53"
  shows "n_pairs_per_cluster64 n k
           = Inr (map (\<lambda>i. fbrk64 n k (Suc i) - fbrk64 n k i) [0..<nat k])"
proof -
  let ?B = "\<lambda>i. if i = nat k then real_of_int n else brk64 n k i"
  have fl: "np_floor (?B i) = real_of_int (fbrk64 n k i)" for i
    by (simp add: np_floor_def fbrk64_def)
  have d: "astype_int (fl64 (real_of_int (fbrk64 n k (Suc i)) - real_of_int (fbrk64 n k i)))
             = fbrk64 n k (Suc i) - fbrk64 n k i" if "i < nat k" for i
  proof -
    let ?d = "fbrk64 n k (Suc i) - fbrk64 n k i"
    have "0 \<le> ?d"
      using fbrk64_mono [OF assms that] by simp
    moreover have "?d \<le> 2 ^ 53"
      using fbrk64_bounds(2) [OF assms, of "Suc i"] fbrk64_bounds(1) [OF assms, of i] that assms(2)
      by simp
    ultimately have "fl64 (real_of_int ?d) = real_of_int ?d"
      by (rule fl64_int)
    then show ?thesis
      using \<open>0 \<le> ?d\<close> by (simp add: astype_int_def)
  qed
  have "map astype_int (np_diff64 (map np_floor (map ?B [0..<Suc (nat k)])))
      = map (\<lambda>i. fbrk64 n k (Suc i) - fbrk64 n k i) [0..<nat k]"
    unfolding map_map comp_def fl np_diff64_map
    using d by simp
  then show ?thesis
    using assms
    by (simp add: n_pairs_per_cluster64_def bind_err_def linspace64_breaks del: upt_Suc)
qed

lemma brk64_closed:
  assumes "0 \<le> n" "2 \<le> k" "n * k \<le> 2 ^ 51"
  shows "\<lfloor>brk64 n k (nat k - 1)\<rfloor> = (n * (k - 1)) div k"
proof -
  define q r where "q = n div k" and "r = n mod k"
  have n: "n = k * q + r"
    unfolding q_def r_def by simp
  have r: "0 \<le> r" "r < k"
    unfolding r_def using assms(2) by simp_all
  have q0: "0 \<le> q"
    unfolding q_def using assms by (simp add: pos_imp_zdiv_nonneg_iff)
  have "n * 1 \<le> n * k"
    using assms(1,2) by (intro mult_left_mono) simp_all
  then have n51: "n \<le> 2 ^ 51"
    using assms(3) by simp
  have i: "real (nat k - 1) = real_of_int k - 1"
    using assms(2) by (simp add: of_nat_diff)
  define N K where "N = real_of_int n" and "K = real_of_int k"
  have K: "2 \<le> K" "0 < K"
    unfolding K_def using assms(2) by simp_all
  have N: "0 \<le> N"
    unfolding N_def using assms(1) by simp
  show ?thesis
  proof (cases "r = 0")
    case True
    then have nq: "n = q * k"
      using n by simp
    have "q * 1 \<le> q * k"
      using q0 assms(2) by (intro mult_left_mono) simp_all
    moreover have "(k - 1) * q = q * k - q"
      by (simp add: algebra_simps)
    ultimately have "q \<le> q * k" "(k - 1) * q \<le> q * k"
      using q0 by simp_all
    then have b: "q \<le> 2 ^ 53" "(k - 1) * q \<le> 2 ^ 53" "0 \<le> (k - 1) * q"
      using n51 q0 assms(2) unfolding nq [symmetric] by simp_all
    have "real_of_int n / real_of_int k = real_of_int q"
      unfolding nq using assms(2) by simp
    then have "brk64 n k (nat k - 1) = fl64 ((real_of_int k - 1) * fl64 (real_of_int q))"
      unfolding brk64_def i by simp
    also have "\<dots> = fl64 (real_of_int ((k - 1) * q))"
      using fl64_int [OF q0 b(1)] by simp
    also have "\<dots> = real_of_int ((k - 1) * q)"
      using b by (intro fl64_int)
    finally have "\<lfloor>brk64 n k (nat k - 1)\<rfloor> = (k - 1) * q"
      by (simp only: floor_of_int)
    moreover have "(n * (k - 1)) div k = (k - 1) * q"
      unfolding nq using assms(2) by simp
    ultimately show ?thesis
      by simp
  next
    case False
    then have r1: "1 \<le> r" "r \<le> k - 1"
      using r by simp_all
    define F where "F = n - q - 1"
    have "n * (k - 1) = k * F + (k - r)"
      unfolding F_def n by (simp add: algebra_simps)
    moreover have "0 \<le> k - r" "k - r < k"
      using r1 by simp_all
    ultimately have d: "(n * (k - 1)) div k = F"
      by (intro int_div_pos_eq [where r = "k - r"])
    define x where "x = N / K"
    define b where "b = (K - 1) * x"
    define S where "S = fl64 x"
    define e where "e = eps64"
    have x0: "0 \<le> x" and Kx: "K * x = N"
      unfolding x_def using K N by simp_all
    have "b = K * x - x"
      unfolding b_def by (simp add: algebra_simps)
    then have bx: "b = N - x"
      unfolding Kx .
    have b0: "0 \<le> b"
      unfolding b_def using x0 K by simp
    have bN: "b \<le> N"
      unfolding bx using x0 by simp
    have S: "0 \<le> S" "x * (1 - e) \<le> S" "S \<le> x * (1 + e)"
      unfolding S_def e_def using x0 by (simp_all add: fl64_nonneg fl64_lower fl64_upper)
    have P: "0 \<le> (K - 1) * S" "b * (1 - e) \<le> (K - 1) * S" "(K - 1) * S \<le> b * (1 + e)"
      using S K unfolding b_def mult.assoc by (simp_all add: mult_left_mono)
    from fl64_near [OF b0 P(1) P(2) [unfolded e_def] P(3) [unfolded e_def]]
    have Y: "\<bar>fl64 ((K - 1) * S) - b\<bar> \<le> 3 * e * b"
      unfolding e_def .
    have "real_of_int (n * k) \<le> real_of_int (2 ^ 51)"
      using assms(3) by (simp only: of_int_le_iff)
    then have NK: "N * K \<le> 2 ^ 51"
      unfolding N_def K_def by simp
    have e0: "0 \<le> e"
      unfolding e_def using eps64_pos by simp
    have "e * (b * K) \<le> e * (N * K)"
      using bN K e0 by (intro mult_left_mono mult_right_mono) simp_all
    also have "\<dots> \<le> e * 2 ^ 51"
      using NK e0 by (intro mult_left_mono)
    also have "\<dots> = 1 / 4"
      unfolding e_def using pow51_eps64 by (simp only: mult.commute)
    finally have "3 * e * b * K < 1"
      by (simp add: algebra_simps)
    then have small: "3 * e * b < 1 / K"
      using K by (simp add: pos_less_divide_eq)
    have rK: "real_of_int r / K = x - real_of_int q"
      unfolding x_def N_def K_def n using assms(2) by (simp add: field_simps)
    have "1 \<le> real_of_int r" "real_of_int r \<le> K - 1"
      unfolding K_def using r1 by linarith+
    then have "1 / K \<le> real_of_int r / K" "real_of_int r / K \<le> (K - 1) / K"
      using K by (simp_all add: divide_right_mono)
    then have fr: "1 / K \<le> x - real_of_int q" "x - real_of_int q \<le> 1 - 1 / K"
      unfolding rK using K by (simp_all add: diff_divide_distrib)
    have Fr: "real_of_int F = N - real_of_int q - 1"
      unfolding F_def N_def by simp
    have "real_of_int F \<le> fl64 ((K - 1) * S)" "fl64 ((K - 1) * S) < real_of_int F + 1"
      using Y small fr unfolding Fr bx by linarith+
    then have "\<lfloor>fl64 ((K - 1) * S)\<rfloor> = F"
      by (intro floor_unique)
    then show ?thesis
      unfolding brk64_def i d S_def x_def N_def K_def .
  qed
qed

lemma fbrk64_1:
  assumes "0 \<le> n" "n < 2 ^ 53" "1 \<le> k" "k \<le> 2 ^ 53"
  shows "fbrk64 n k (Suc 0) = n div k"
proof (cases "k = 1")
  case True
  then show ?thesis
    by (simp add: fbrk64_def)
next
  case False
  then have k2: "2 \<le> k"
    using assms(3) by simp
  define q r where "q = n div k" and "r = n mod k"
  have n: "n = k * q + r"
    unfolding q_def r_def by simp
  have r: "0 \<le> r" "r \<le> k - 1"
    unfolding r_def using k2 by simp_all
  have q0: "0 \<le> q"
    unfolding q_def using assms by (simp add: pos_imp_zdiv_nonneg_iff)
  have "q * 1 \<le> q * k"
    using q0 assms(3) by (intro mult_left_mono) simp_all
  then have qn: "q \<le> n"
    using r(1) unfolding n by (simp add: mult.commute)
  then have q53: "q \<le> 2 ^ 53"
    using assms(2) by simp
  define N K x S where "N = real_of_int n" and "K = real_of_int k"
    and "x = real_of_int n / real_of_int k" and "S = fl64 (real_of_int n / real_of_int k)"
  have K: "0 < K"
    unfolding K_def using k2 by simp
  have N: "0 \<le> N"
    unfolding N_def using assms(1) by simp
  have x0: "0 \<le> x" and xK: "x = N / K"
    unfolding x_def N_def K_def using assms by simp_all
  have "x = real_of_int q + real_of_int r / K"
    unfolding x_def K_def n using k2 by (simp add: field_simps)
  moreover have "0 \<le> real_of_int r / K" "real_of_int r / K \<le> (K - 1) / K"
    using r K unfolding K_def by (simp_all add: divide_right_mono)
  ultimately have xb: "real_of_int q \<le> x" "x \<le> real_of_int q + 1 - 1 / K"
    using K by (simp_all add: diff_divide_distrib)
  have "real_of_int n < real_of_int (2 ^ 53)"
    using assms(2) by (simp only: of_int_less_iff)
  then have "N * eps64 < 2 ^ 53 * eps64"
    unfolding N_def using eps64_pos by (intro mult_strict_right_mono) simp_all
  then have "N * eps64 < 1"
    unfolding pow53_eps64 .
  then have "N * eps64 / K < 1 / K"
    using K by (simp add: divide_strict_right_mono)
  then have xe: "x * eps64 < 1 / K"
    unfolding xK by simp
  have "fl64 (real_of_int q) \<le> S"
    unfolding S_def using xb(1) q0 unfolding x_def by (intro fl64_mono) simp_all
  then have lo: "real_of_int q \<le> S"
    using fl64_int [OF q0 q53] by simp
  have "S \<le> x + x * eps64"
    unfolding S_def x_def [symmetric] using fl64_upper [OF x0] by (simp add: algebra_simps)
  then have hi: "S < real_of_int q + 1"
    using xe xb(2) by linarith
  have S0: "0 \<le> S"
    unfolding S_def x_def [symmetric] using x0 by (rule fl64_nonneg)
  have "brk64 n k (Suc 0) = fl64 S"
    unfolding brk64_def S_def by simp
  also have "\<dots> = S"
    unfolding S_def x_def [symmetric] using x0 by (rule fl64_idem)
  finally have "\<lfloor>brk64 n k (Suc 0)\<rfloor> = q"
    using lo hi by (simp add: floor_unique)
  moreover have "Suc 0 \<noteq> nat k"
    using k2 by simp
  ultimately show ?thesis
    unfolding q_def by (simp add: fbrk64_def)
qed

lemma sum_list_le_const: "\<forall>x\<in>set xs. x \<le> (c::int) \<Longrightarrow> sum_list xs \<le> int (length xs) * c"
  by (induction xs) (auto simp: algebra_simps)

text \<open>
  The properties of the exact partition that do not depend on single counts hold for
  the float64 partition as well, as long as float64 holds the integers exactly.
\<close>

lemma n_pairs_per_cluster64_nonneg_sum:
  assumes "0 \<le> n" "n \<le> 2 ^ 53" "1 \<le> k" "k \<le> 2 ^ 53"
  shows "\<exists>cs. n_pairs_per_cluster64 n k = Inr cs \<and> length cs = nat k
           \<and> (\<forall>c\<in>set cs. 0 \<le> c) \<and> sum_list cs = n"
  using assms fbrk64_mono [OF assms]
  by (auto simp: counts64_closed telescope fbrk64_0 fbrk64_k simp del: upt_Suc)

text \<open>
  Claim C5, as stated, fails: five pairs over two clusters are split into the counts
  \<open>[2, 3]\<close>, so the larger count is at the later position.
\<close>

theorem n_pairs_per_cluster64_later_counterexample:
  "n_pairs_per_cluster64 5 2 = Inr [2, 3] \<and> \<not> larger_counts_first [2, 3]"
proof -
  have h: "(0::int) \<le> 5" "(5::int) \<le> 2 ^ 53" "(1::int) \<le> 2" "(2::int) \<le> 2 ^ 53" "(5::int) < 2 ^ 53"
    by simp_all
  have "fbrk64 5 2 (Suc 0) = 2" "fbrk64 5 2 0 = 0" "fbrk64 5 2 (Suc (Suc 0)) = 5"
    using fbrk64_1 [OF h(1,5,3,4)] by (simp_all add: fbrk64_0) (simp add: fbrk64_def)
  then show ?thesis
    by (simp add: counts64_closed [OF h(1-4)] upt_conv_Cons larger_counts_first_def)
qed

text \<open>
  Claim C5, amended. For \<open>n_pairs < 2\<^sup>5\<^sup>3\<close> and \<open>n_clusters \<le> 2\<^sup>5\<^sup>3\<close>, where float64
  holds the integers exactly, the remainder is not absorbed by the earlier clusters:
  the first cluster always gets exactly the quotient \<open>n_pairs div n_clusters\<close>, and
  whenever \<open>n_clusters\<close> does not divide \<open>n_pairs\<close> some later cluster gets a larger
  count than the first.
\<close>

theorem n_pairs_per_cluster64_first_count:
  assumes "0 \<le> n_pairs" "n_pairs < 2 ^ 53" "1 \<le> n_clusters" "n_clusters \<le> 2 ^ 53"
  shows "\<exists>cs. n_pairs_per_cluster64 n_pairs n_clusters = Inr cs \<and> cs \<noteq> []
           \<and> hd cs = n_pairs div n_clusters
           \<and> (n_pairs mod n_clusters \<noteq> 0 \<longrightarrow>
                 (\<exists>j. 0 < j \<and> j < length cs \<and> hd cs < cs ! j))"
proof -
  let ?f = "fbrk64 n_pairs n_clusters"
  let ?cs = "map (\<lambda>i. ?f (Suc i) - ?f i) [0..<nat n_clusters]"
  have n53: "n_pairs \<le> 2 ^ 53"
    using assms(2) by simp
  have k: "0 < nat n_clusters"
    using assms(3) by simp
  then have ne: "[0..<nat n_clusters] \<noteq> []"
    by simp
  have hd: "hd ?cs = n_pairs div n_clusters"
    using ne k fbrk64_1 [OF assms] assms(3) by (simp add: hd_map fbrk64_0 del: upt_eq_Nil_conv)
  have sum: "sum_list ?cs = n_pairs"
    using assms(3) by (simp add: telescope fbrk64_0 fbrk64_k)
  have later: "\<exists>j. 0 < j \<and> j < length ?cs \<and> hd ?cs < ?cs ! j" if r: "n_pairs mod n_clusters \<noteq> 0"
  proof (rule ccontr)
    assume "\<not> (\<exists>j. 0 < j \<and> j < length ?cs \<and> hd ?cs < ?cs ! j)"
    then have a: "?cs ! j \<le> hd ?cs" if "0 < j" "j < length ?cs" for j
      using that by (meson not_less)
    have "?cs ! j \<le> hd ?cs" if "j < length ?cs" for j
    proof (cases "j = 0")
      case True
      have "hd ?cs = ?cs ! 0"
        using ne by (intro hd_conv_nth) simp
      then show ?thesis
        unfolding True by (simp only: order_refl)
    next
      case False
      then show ?thesis
        using a that by simp
    qed
    then have "\<forall>x\<in>set ?cs. x \<le> hd ?cs"
      unfolding all_set_conv_all_nth by blast
    from sum_list_le_const [OF this] have "n_pairs \<le> n_clusters * (n_pairs div n_clusters)"
      unfolding sum hd using assms(3) by simp
    moreover have "n_clusters * (n_pairs div n_clusters) = n_pairs - n_pairs mod n_clusters"
      by (simp add: minus_mod_eq_mult_div [symmetric])
    moreover have "0 \<le> n_pairs mod n_clusters"
      using assms(3) by (intro pos_mod_sign) simp
    then have "0 < n_pairs mod n_clusters"
      using r by linarith
    ultimately show False
      by simp
  qed
  show ?thesis
    using ne hd later by (simp add: counts64_closed [OF assms(1) n53 assms(3,4)] del: upt_eq_Nil_conv)
qed

theorem n_pairs_per_cluster64_first_count_witness:
  "(0::int) \<le> 5 \<and> (5::int) < 2 ^ 53 \<and> (1::int) \<le> 3 \<and> (3::int) \<le> 2 ^ 53 \<and> (5::int) mod 3 \<noteq> 0 \<and>
   (\<exists>cs. n_pairs_per_cluster64 5 3 = Inr cs \<and> cs \<noteq> [] \<and> hd cs = 5 div 3
      \<and> (\<exists>j. 0 < j \<and> j < length cs \<and> hd cs < cs ! j))"
proof -
  have h: "(0::int) \<le> 5" "(5::int) < 2 ^ 53" "(1::int) \<le> 3" "(3::int) \<le> 2 ^ 53"
    by simp_all
  have m: "(5::int) mod 3 \<noteq> 0"
    by simp
  show ?thesis
    using h m n_pairs_per_cluster64_first_count [OF h] by blast
qed

section \<open>The pairs emitted in float64\<close>

lemma nat_telescope64:
  assumes "0 \<le> n" "n \<le> 2 ^ 53" "1 \<le> k" "k \<le> 2 ^ 53" "m \<le> nat k"
  shows "sum_list (map (\<lambda>i. nat (fbrk64 n k (Suc i) - fbrk64 n k i)) [0..<m]) = nat (fbrk64 n k m)"
  using assms(5)
proof (induction m)
  case 0
  then show ?case
    using assms(3) by (simp add: fbrk64_0)
next
  case (Suc m)
  then have m: "m < nat k" "m \<le> nat k"
    by simp_all
  show ?case
    using Suc.IH [OF m(2)] fbrk64_mono [OF assms(1-4) m(1)] fbrk64_bounds(1) [OF assms(1-4) m(2)]
    by simp
qed

lemma generate_pairs_blocks64_ok:
  assumes "0 \<le> n" "n \<le> 2 ^ 53" "1 \<le> k" "k \<le> 2 ^ 53"
  shows "\<exists>pa ta g'. generate_pairs_blocks64 n k g = Inr (pa, ta, g')
           \<and> map length pa = map (\<lambda>i. nat (fbrk64 n k (Suc i) - fbrk64 n k i)) [0..<nat (max k 2 - 1)]
           \<and> map length ta = map (\<lambda>i. nat (fbrk64 n k (Suc i) - fbrk64 n k i)) [0..<nat (max k 2 - 1)]
           \<and> (\<forall>b\<in>set pa. phis_in_range b) \<and> (\<forall>b\<in>set ta. thetas_in_range b)"
proof -
  let ?cs = "map (\<lambda>i. fbrk64 n k (Suc i) - fbrk64 n k i) [0..<nat k]"
  let ?idx = "[0..<nat (max k 2 - 1)]"
  obtain pc g1 where pc: "uniform (real_of_int PHI_MIN_DEGREES) (real_of_int PHI_MAX_DEGREES) k g = Inr (pc, g1)"
    "length pc = nat k"
    using assms by (simp add: uniform_def Let_def)
  obtain tc g2 where tc: "uniform (real_of_int THETA_MIN_DEGREES) (real_of_int THETA_MAX_DEGREES) k g1 = Inr (tc, g2)"
    "length tc = nat k"
    using assms by (simp add: uniform_def Let_def)
  have idx: "\<forall>i\<in>set ?idx. i < length ?cs \<and> i < length pc \<and> i < length tc \<and> 0 \<le> ?cs ! i"
    using assms pc(2) tc(2) fbrk64_mono [OF assms] by (auto simp: max_def)
  have n': "(if k = 1 then 2 else k) = max k 2"
    using assms by (auto simp: max_def)
  have e: "generate_pairs_blocks64 n k g
      = sample_clusters ?idx ?cs pc tc (360 / real_of_int k) (180 / real_of_int k) g2"
    using assms pc tc
    by (simp add: generate_pairs_blocks64_def counts64_closed bind_err_def py_truediv_def n'
        PHI_MIN_DEGREES_def PHI_MAX_DEGREES_def THETA_MIN_DEGREES_def THETA_MAX_DEGREES_def)
  from sample_clusters_ok [OF idx, of "360 / real_of_int k" "180 / real_of_int k" g2]
  obtain pa ta g' where
    r: "sample_clusters ?idx ?cs pc tc (360 / real_of_int k) (180 / real_of_int k) g2 = Inr (pa, ta, g')"
       "map length pa = map (\<lambda>i. nat (?cs ! i)) ?idx"
       "map length ta = map (\<lambda>i. nat (?cs ! i)) ?idx"
       "\<forall>b\<in>set pa. phis_in_range b" "\<forall>b\<in>set ta. thetas_in_range b"
    by blast
  have "map (\<lambda>i. nat (?cs ! i)) ?idx = map (\<lambda>i. nat (fbrk64 n k (Suc i) - fbrk64 n k i)) ?idx"
    using assms by (auto simp: max_def)
  then show ?thesis
    using e r by simp
qed

text \<open>
  With the float64 partition too, \<^verbatim>\<open>generate_pairs\<close> returns, all its coordinates are
  in range, and the pairs it returns are counted by the floored breakpoint before the
  last (by the end point \<open>n_pairs\<close> itself when there is one cluster).
\<close>

lemma generate_pairs64_ok:
  assumes "0 \<le> n" "n \<le> 2 ^ 53" "1 \<le> k" "k \<le> 2 ^ 53"
  shows "\<exists>phis thetas g'. generate_pairs64 n k g = Inr (phis, thetas, g')
           \<and> length phis = nat (fbrk64 n k (nat (max k 2 - 1)))
           \<and> length thetas = nat (fbrk64 n k (nat (max k 2 - 1)))
           \<and> phis_in_range phis \<and> thetas_in_range thetas"
proof -
  let ?idx = "[0..<nat (max k 2 - 1)]"
  let ?f = "\<lambda>i. nat (fbrk64 n k (Suc i) - fbrk64 n k i)"
  from generate_pairs_blocks64_ok [OF assms, of g] obtain pa ta g' where
    b: "generate_pairs_blocks64 n k g = Inr (pa, ta, g')"
       "map length pa = map ?f ?idx" "map length ta = map ?f ?idx"
       "\<forall>b\<in>set pa. phis_in_range b" "\<forall>b\<in>set ta. thetas_in_range b"
    by blast
  have "length (map length pa) = length ?idx" "length (map length ta) = length ?idx"
    unfolding b by simp_all
  then have ne: "pa \<noteq> []" "ta \<noteq> []"
    by (auto simp: max_def split: if_splits)
  have mk: "nat (max k 2 - 1) \<le> nat k"
    using assms by (auto simp: max_def)
  have "length (concat pa) = sum_list (map ?f ?idx)" "length (concat ta) = sum_list (map ?f ?idx)"
    by (simp_all add: length_concat b)
  then have len: "length (concat pa) = nat (fbrk64 n k (nat (max k 2 - 1)))"
     "length (concat ta) = nat (fbrk64 n k (nat (max k 2 - 1)))"
    by (simp_all only: nat_telescope64 [OF assms mk])
  have "phis_in_range (concat pa)" "thetas_in_range (concat ta)"
    using b(4,5) unfolding phis_in_range_def thetas_in_range_def by auto
  then show ?thesis
    using b(1) ne len by (simp add: generate_pairs64_def bind_err_def vstack_def)
qed

lemma sum_butlast:
  assumes "0 < m"
  shows "sum_list (butlast (map (\<lambda>i. f (Suc i) - f i) [0..<m])) = f (m - 1) - (f 0 :: int)"
proof -
  obtain m' where m: "m = Suc m'"
    using assms by (cases m) auto
  show ?thesis
    unfolding m by (simp add: telescope)
qed

lemma brk64_big: "brk64 67679097 67679096 67679095 = 67679096"
proof -
  have a: "fl64 (67679097 / 67679096) = 4503599693913933 / 2 ^ 52"
    using fl64_eval [of 0 "67679097 / 67679096"] by (simp add: round_half_even_def powr_minus)
  have b: "fl64 (67679095 * (4503599693913933 / 2 ^ 52)) = 67679096"
    using fl64_eval [of 26 "67679095 * (4503599693913933 / 2 ^ 52)"]
    by (simp add: round_half_even_def powr_minus)
  show ?thesis
    unfolding brk64_def by (simp only: of_int_numeral of_nat_numeral a b)
qed

text \<open>
  Claim C10, as stated, fails: for 67679097 pairs over 67679096 clusters the closed
  form gives 67679095 pairs, and \<^verbatim>\<open>generate_pairs\<close> returns 67679096, because the
  float64 breakpoint before the last is rounded up to an integer.
\<close>

theorem generate_pairs64_total_counterexample:
  "pairs_emitted (generate_pairs64 67679097 67679096 \<lparr>draws = ramp, pos = 0\<rparr>) = Inr 67679096
   \<and> (67679097 * (67679096 - 1)) div 67679096 = (67679095 :: int)"
proof -
  have h: "(0::int) \<le> 67679097" "(67679097::int) \<le> 2 ^ 53" "(1::int) \<le> 67679096"
      "(67679096::int) \<le> 2 ^ 53"
    by simp_all
  have "fbrk64 67679097 67679096 (nat (max 67679096 2 - 1)) = 67679096"
    by (simp add: fbrk64_def brk64_big)
  with generate_pairs64_ok [OF h, of "\<lparr>draws = ramp, pos = 0\<rparr>"]
  have "pairs_emitted (generate_pairs64 67679097 67679096 \<lparr>draws = ramp, pos = 0\<rparr>) = Inr 67679096"
    by (auto simp: pairs_emitted_def)
  then show ?thesis
    by simp
qed

text \<open>
  Claim C10, amended. For every \<open>n_pairs \<ge> 0\<close> and \<open>n_clusters \<ge> 2\<close>, both at most
  \<open>2\<^sup>5\<^sup>3\<close>, \<^verbatim>\<open>generate_pairs\<close> returns as many pairs as the sum of all the
  partition counts but the last, which is the floor of the float64 breakpoint before
  the last, \<open>fl((n_clusters - 1) * fl(n_pairs / n_clusters))\<close>; and this is
  \<open>floor(n_pairs * (n_clusters - 1) / n_clusters)\<close> whenever
  \<open>n_pairs * n_clusters \<le> 2\<^sup>5\<^sup>1\<close>.
\<close>

theorem generate_pairs64_total_emitted:
  assumes "0 \<le> n_pairs" "n_pairs \<le> 2 ^ 53" "2 \<le> n_clusters" "n_clusters \<le> 2 ^ 53"
  shows "\<exists>cs phis thetas g'. n_pairs_per_cluster64 n_pairs n_clusters = Inr cs
           \<and> generate_pairs64 n_pairs n_clusters g = Inr (phis, thetas, g')
           \<and> int (length phis) = sum_list (butlast cs)
           \<and> int (length thetas) = sum_list (butlast cs)
           \<and> sum_list (butlast cs) = \<lfloor>brk64 n_pairs n_clusters (nat n_clusters - 1)\<rfloor>
           \<and> (n_pairs * n_clusters \<le> 2 ^ 51 \<longrightarrow>
                 sum_list (butlast cs) = (n_pairs * (n_clusters - 1)) div n_clusters)"
proof -
  have k: "1 \<le> n_clusters" "0 < nat n_clusters" "nat n_clusters - 1 \<noteq> nat n_clusters"
      "nat n_clusters - 1 \<le> nat n_clusters"
    using assms by simp_all
  have m: "nat (max n_clusters 2 - 1) = nat n_clusters - 1"
    using assms by (simp add: max_def nat_diff_distrib)
  have f: "fbrk64 n_pairs n_clusters (nat n_clusters - 1) = \<lfloor>brk64 n_pairs n_clusters (nat n_clusters - 1)\<rfloor>"
    using k(3) by (simp add: fbrk64_def)
  have nn: "0 \<le> fbrk64 n_pairs n_clusters (nat n_clusters - 1)"
    using fbrk64_bounds(1) [OF assms(1,2) k(1) assms(4) k(4)] .
  have s: "sum_list (butlast (map (\<lambda>i. fbrk64 n_pairs n_clusters (Suc i) - fbrk64 n_pairs n_clusters i)
              [0..<nat n_clusters]))
       = fbrk64 n_pairs n_clusters (nat n_clusters - 1)"
    using sum_butlast [OF k(2), of "fbrk64 n_pairs n_clusters"] k(1) by (simp add: fbrk64_0)
  from generate_pairs64_ok [OF assms(1,2) k(1) assms(4), of g] obtain phis thetas g' where
    g: "generate_pairs64 n_pairs n_clusters g = Inr (phis, thetas, g')"
       "length phis = nat (fbrk64 n_pairs n_clusters (nat n_clusters - 1))"
       "length thetas = nat (fbrk64 n_pairs n_clusters (nat n_clusters - 1))"
    unfolding m by blast
  have c: "n_pairs * n_clusters \<le> 2 ^ 51 \<longrightarrow>
      fbrk64 n_pairs n_clusters (nat n_clusters - 1) = (n_pairs * (n_clusters - 1)) div n_clusters"
    unfolding f using brk64_closed [OF assms(1,3)] by blast
  show ?thesis
    using g nn s c f by (simp add: counts64_closed [OF assms(1,2) k(1) assms(4)])
qed

theorem generate_pairs64_total_emitted_witness:
  "(0::int) \<le> 5 \<and> (5::int) \<le> 2 ^ 53 \<and> (2::int) \<le> 3 \<and> (3::int) \<le> 2 ^ 53 \<and> (5::int) * 3 \<le> 2 ^ 51 \<and>
   (\<exists>cs phis thetas g'. n_pairs_per_cluster64 5 3 = Inr cs
           \<and> generate_pairs64 5 3 \<lparr>draws = ramp, pos = 0\<rparr> = Inr (phis, thetas, g')
           \<and> int (length phis) = sum_list (butlast cs)
           \<and> int (length thetas) = sum_list (butlast cs)
           \<and> sum_list (butlast cs) = \<lfloor>brk64 5 3 (nat 3 - 1)\<rfloor>
           \<and> sum_list (butlast cs) = (5 * (3 - 1)) div 3)"
proof -
  have h: "(0::int) \<le> 5" "(5::int) \<le> 2 ^ 53" "(2::int) \<le> 3" "(3::int) \<le> 2 ^ 53"
    by simp_all
  have m: "(5::int) * 3 \<le> 2 ^ 51"
    by simp
  show ?thesis
    using h m generate_pairs64_total_emitted [OF h, of "\<lparr>draws = ramp, pos = 0\<rparr>"] by blast
qed

section \<open>The haversine distance\<close>

lemma broadcast2_same: "length xs = length ys \<Longrightarrow> broadcast2 f xs ys = Inr (map2 f xs ys)"
  by (simp add: broadcast2_def)

lemma haversine_a_range: "0 \<le> haversine_a phi0 theta0 phi1 theta1 \<and> haversine_a phi0 theta0 phi1 theta1 \<le> 1"
proof -
  define t0 t1 s where "t0 = radians theta0" and "t1 = radians theta1"
    and "s = (sin (radians (phi0 - phi1) / 2))\<^sup>2"
  define cd cs where "cd = cos (t1 - t0)" and "cs = cos (t1 + t0)"
  have s: "0 \<le> s" "s \<le> 1"
    unfolding s_def by (simp_all add: abs_square_le_1)
  have cd: "- 1 \<le> cd" "cd \<le> 1" and cs: "- 1 \<le> cs" "cs \<le> 1"
    unfolding cd_def cs_def by simp_all
  have h: "(sin ((t1 - t0) / 2))\<^sup>2 = (1 - cd) / 2"
  proof -
    have "2 * ((t1 - t0) / 2) = t1 - t0"
      by simp
    with cos_double_sin [of "(t1 - t0) / 2"] have "cd = 1 - 2 * (sin ((t1 - t0) / 2))\<^sup>2"
      unfolding cd_def by (simp only:)
    then show ?thesis
      by simp
  qed
  have p: "cos t0 * cos t1 = (cd + cs) / 2"
    unfolding cd_def cs_def by (simp add: cos_add cos_diff)
  have a: "haversine_a phi0 theta0 phi1 theta1 = (1 - cd) / 2 + (cd + cs) / 2 * s"
    unfolding haversine_a_def Let_def t0_def [symmetric] t1_def [symmetric] s_def [symmetric] h p ..
  define u v where "u = cd * s" and "v = cs * s"
  have "cd * (1 - s) \<le> 1 * (1 - s)" "- 1 * (1 - s) \<le> cd * (1 - s)"
       "cs * s \<le> 1 * s" "- 1 * s \<le> cs * s"
    using s cd cs by (intro mult_right_mono; simp)+
  then have b: "cd - u \<le> 1 - s" "s - 1 \<le> cd - u" "v \<le> s" "- s \<le> v"
    unfolding u_def v_def by (simp_all add: algebra_simps)
  have e: "(1 - cd) / 2 + (cd + cs) / 2 * s = (1 - cd + u + v) / 2"
    unfolding u_def v_def by (simp add: algebra_simps add_divide_distrib diff_divide_distrib)
  have "0 \<le> 1 - cd + u + v"
    using b by linarith
  then have lo: "0 \<le> (1 - cd + u + v) / 2"
    by simp
  have "1 - cd + u + v \<le> 2"
    using b by linarith
  then have hi: "(1 - cd + u + v) / 2 \<le> 1"
    by simp
  show ?thesis
    unfolding a e using lo hi by (rule conjI)
qed

lemma distance_of_root_in_domain:
  assumes "0 \<le> a" "a \<le> 1"
  shows "distance_of_root radius a = Fin (2 * radius * arcsin (sqrt a))"
proof -
  have "0 \<le> sqrt a" "sqrt a \<le> 1"
    using assms by simp_all
  then have "\<not> (sqrt a < - 1 \<or> 1 < sqrt a)"
    by linarith
  then show ?thesis
    using assms unfolding distance_of_root_def np_sqrt_def by (simp only: np_asin.simps np_scale.simps if_False not_less [symmetric] simp_thms)
qed

lemma haversine_distance_aligned:
  assumes "length phis0 = n" "length thetas0 = n" "length phis1 = n" "length thetas1 = n"
  shows "haversine_distance phis0 thetas0 phis1 thetas1 radius
           = Inr (map (\<lambda>i. distance_of_root radius
                        (haversine_a (phis0 ! i) (thetas0 ! i) (phis1 ! i) (thetas1 ! i))) [0..<n])"
  using assms
  by (auto simp: haversine_distance_def bind_err_def broadcast2_same Let_def haversine_a_def
        intro!: nth_equalityI)

text \<open>
  Claim C2. For four coordinate arrays of one length \<open>n\<close> and every radius,
  \<^verbatim>\<open>haversine_distance\<close> returns \<open>n\<close> distances, the \<open>i\<close>-th being
  \<open>2 * radius * asin(sqrt(a))\<close> for the \<open>a\<close> of the \<open>i\<close>-th aligned pair,
  \<open>a = sin\<^sup>2(dtheta / 2) + cos(theta0') * cos(theta1') * sin\<^sup>2(dphi / 2)\<close>.
\<close>

theorem haversine_distance_formula:
  assumes "length phis0 = n" "length thetas0 = n" "length phis1 = n" "length thetas1 = n"
  shows "haversine_distance phis0 thetas0 phis1 thetas1 radius
           = Inr (map (\<lambda>i. Fin (2 * radius * arcsin (sqrt
                        (haversine_a (phis0 ! i) (thetas0 ! i) (phis1 ! i) (thetas1 ! i))))) [0..<n])"
  unfolding haversine_distance_aligned [OF assms]
  by (simp add: distance_of_root_in_domain haversine_a_range)

theorem haversine_distance_formula_witness:
  "length [0::real] = 1 \<and> length [0::real] = 1 \<and> length [180::real] = 1 \<and> length [0::real] = 1 \<and>
   haversine_distance [0] [0] [180] [0] 1
     = Inr (map (\<lambda>i. Fin (2 * 1 * arcsin (sqrt
              (haversine_a ([0] ! i) ([0] ! i) ([180] ! i) ([0] ! i))))) [0..<1])"
proof -
  have h: "length [0::real] = 1" "length [180::real] = 1"
    by simp_all
  show ?thesis
    using h haversine_distance_formula [OF h(1) h(1) h(2) h(1), of 1] by blast
qed

lemma bind_err_simps: "bind_err (Inl e) f = Inl e" "bind_err (Inr x) f = f x"
  by (simp_all add: bind_err_def)

lemma map2_swap: "map2 f xs ys = map2 (\<lambda>a b. f b a) ys xs"
  by (induction xs arbitrary: ys) (auto simp: zip_Cons1 split: list.splits)

lemma broadcast2_swap: "broadcast2 f xs ys = broadcast2 (\<lambda>a b. f b a) ys xs"
  unfolding broadcast2_def using map2_swap [of f xs ys] by auto

lemma broadcast2_post:
  "broadcast2 (\<lambda>a b. h (f a b)) xs ys = map_sum id (map h) (broadcast2 f xs ys)"
  by (auto simp: broadcast2_def)

lemma sub_swap: "broadcast2 (\<lambda>x y. x - y) ys xs = map_sum id (map uminus) (broadcast2 (\<lambda>x y. x - (y::real)) xs ys)"
proof -
  have "broadcast2 (\<lambda>x y. x - y) ys xs = broadcast2 (\<lambda>a b. - (a - b)) xs ys"
    by (subst broadcast2_swap) simp
  then show ?thesis by (simp only: broadcast2_post)
qed

lemma mul_swap: "broadcast2 (\<lambda>x y. x * y) ys xs = broadcast2 (\<lambda>x y. x * (y::real)) xs ys"
  by (subst broadcast2_swap) (simp add: mult.commute)

lemma sin_sq_neg: "(\<lambda>x. (sin (x / 2))\<^sup>2) \<circ> radians \<circ> uminus = (\<lambda>x. (sin (x / 2))\<^sup>2) \<circ> radians"
  by (rule ext) (simp add: radians_def)

lemma sin_sq_neg': "(\<lambda>x. (sin (x / 2))\<^sup>2) \<circ> uminus = (\<lambda>x. (sin (x / 2::real))\<^sup>2)"
  by (rule ext) simp

text \<open>
  Claim C7. \<^verbatim>\<open>haversine_distance\<close> is symmetric: for all coordinate arrays and every
  radius, exchanging the first points \<open>(phis0, thetas0)\<close> with the second points
  \<open>(phis1, thetas1)\<close> gives the same result, the same distances or the same error.
\<close>

theorem haversine_distance_symmetric:
  "haversine_distance phis1 thetas1 phis0 thetas0 radius
     = haversine_distance phis0 thetas0 phis1 thetas1 radius"
proof -
  let ?sq = "\<lambda>x::real. (sin (x / 2))\<^sup>2"
  have p: "bind_err (broadcast2 (\<lambda>x y. x - y) phis1 phis0) (\<lambda>d. F (map ?sq (map radians d)))
         = bind_err (broadcast2 (\<lambda>x y. x - y) phis0 phis1) (\<lambda>d. F (map ?sq (map radians d)))"
    for F :: "real list \<Rightarrow> error + np_float list"
    unfolding sub_swap [of phis1 phis0]
    by (cases "broadcast2 (\<lambda>x y. x - y) phis0 phis1") (simp_all add: bind_err_simps sin_sq_neg)
  show ?thesis
    unfolding haversine_distance_def Let_def
    apply (subst p)
    apply (subst sub_swap [of "map radians thetas0" "map radians thetas1"])
    apply (subst mul_swap [of "map cos (map radians thetas0)" "map cos (map radians thetas1)"])
    apply (cases "broadcast2 (\<lambda>x y. x - y) (map radians thetas1) (map radians thetas0)")
     apply (simp_all add: bind_err_simps sin_sq_neg')
    done
qed

lemma broadcast2_cases:
  obtains (err) "length xs \<noteq> length ys" "length xs \<noteq> 1" "length ys \<noteq> 1"
      "broadcast2 f xs ys = Inl ValueError"
  | (ok) zs where "length xs = length ys \<or> length xs = 1 \<or> length ys = 1"
      "broadcast2 f xs ys = Inr zs" "length zs = (if length xs = 1 then length ys else length xs)"
  by (cases "length xs = length ys"; cases "length xs = 1"; cases "length ys = 1")
     (auto simp: broadcast2_def)

text \<open>
  Claim C9, as stated, fails: the first points given as arrays of length one and the
  second points as arrays of length two have mismatched lengths, and the call returns
  two distances, the single first point being repeated.
\<close>

theorem haversine_distance_broadcast_counterexample:
  "haversine_distance [0] [0] [0, 180] [0, 0] 1 = Inr [Fin 0, Fin pi]"
  by (simp add: haversine_distance_def broadcast2_def bind_err_def radians_def
        distance_of_root_def np_sqrt_def)

text \<open>
  Claim C9, amended. \<^verbatim>\<open>haversine_distance\<close> has no length check of its own; it fails
  exactly where NumPy cannot broadcast. If two of the four arrays have different
  lengths, both other than one, the call raises \<open>ValueError\<close> and returns no
  distances. Otherwise it returns distances, arrays of length one being repeated along
  the others, and the number of distances is the common length of the arrays whose
  length is not one.
\<close>

theorem haversine_distance_mismatch:
  "(let L = {length phis0, length thetas0, length phis1, length thetas1}
    in if \<exists>m\<in>L. \<exists>n\<in>L. m \<noteq> 1 \<and> n \<noteq> 1 \<and> m \<noteq> n
       then haversine_distance phis0 thetas0 phis1 thetas1 radius = Inl ValueError
       else \<exists>ds. haversine_distance phis0 thetas0 phis1 thetas1 radius = Inr ds
              \<and> (\<forall>n\<in>L. n \<noteq> 1 \<longrightarrow> length ds = n))"
proof -
  let ?sq = "\<lambda>x::real. (sin (x / 2))\<^sup>2"
  let ?t0 = "map radians thetas0" and ?t1 = "map radians thetas1"
  show ?thesis
  proof (cases rule: broadcast2_cases [of phis0 phis1 "\<lambda>x y. x - y"])
    case err
    then show ?thesis
      by (auto simp: haversine_distance_def bind_err_simps Let_def)
  next
    case (ok d)
    note d = ok
    show ?thesis
    proof (cases rule: broadcast2_cases [of ?t1 ?t0 "\<lambda>x y. x - y"])
      case err
      then show ?thesis
        using d(2) by (auto simp: haversine_distance_def bind_err_simps Let_def)
    next
      case (ok dthetas)
      note dt = ok
      obtain cc where cc: "broadcast2 (\<lambda>x y. x * y) (map cos ?t0) (map cos ?t1) = Inr cc"
          "length cc = (if length thetas0 = 1 then length thetas1 else length thetas0)"
        using dt(1) by (cases rule: broadcast2_cases [of "map cos ?t0" "map cos ?t1" "\<lambda>x y. x * y"]) auto
      show ?thesis
      proof (cases rule: broadcast2_cases [of cc "map ?sq (map radians d)" "\<lambda>x y. x * y"])
        case err
        then have "\<exists>m\<in>{length phis0, length thetas0, length phis1, length thetas1}.
                   \<exists>n\<in>{length phis0, length thetas0, length phis1, length thetas1}. m \<noteq> 1 \<and> n \<noteq> 1 \<and> m \<noteq> n"
          using d(3) cc(2) by (auto split: if_splits)
        then show ?thesis
          using d(2) dt(2) cc(1) err(4) by (simp add: haversine_distance_def bind_err_simps Let_def)
      next
        case (ok r1)
        note r1 = ok
        obtain a where a: "broadcast2 (\<lambda>x y. x + y) (map ?sq dthetas) r1 = Inr a"
          "length a = (if length dthetas = 1 then length r1 else length dthetas)"
          using r1(1,3) dt(1,3) cc(2)
          by (cases rule: broadcast2_cases [of "map ?sq dthetas" r1 "\<lambda>x y. x + y"]) (auto split: if_splits)
        have e: "haversine_distance phis0 thetas0 phis1 thetas1 radius = Inr (map (distance_of_root radius) a)"
          using d(2) dt(2) cc(1) r1(2) a(1) by (simp add: haversine_distance_def bind_err_simps Let_def)
        have no: "\<not> (\<exists>m\<in>{length phis0, length thetas0, length phis1, length thetas1}.
                   \<exists>n\<in>{length phis0, length thetas0, length phis1, length thetas1}. m \<noteq> 1 \<and> n \<noteq> 1 \<and> m \<noteq> n)"
          using d(1,3) dt(1,3) cc(2) r1(1,3) by (auto split: if_splits)
        have len: "\<forall>n\<in>{length phis0, length thetas0, length phis1, length thetas1}. n \<noteq> 1 \<longrightarrow> length a = n"
          using d(1,3) dt(1,3) cc(2) r1(1,3) a(2) by (auto split: if_splits)
        have "length (map (distance_of_root radius) a) = length a"
          by simp
        with e len have ex: "\<exists>ds. haversine_distance phis0 thetas0 phis1 thetas1 radius = Inr ds
              \<and> (\<forall>n\<in>{length phis0, length thetas0, length phis1, length thetas1}.
                     n \<noteq> 1 \<longrightarrow> length ds = n)"
          by (intro exI [of _ "map (distance_of_root radius) a"] conjI) (simp_all only:)
        show ?thesis
          unfolding Let_def by (subst if_not_P [OF no]) (rule ex)
      qed
    qed
  qed
qed

theorem haversine_distance_mismatch_witness:
  "haversine_distance [0, 1, 2] [0, 0, 0] [0, 180] [0, 0] 1 = Inl ValueError \<and>
   (\<exists>ds. haversine_distance [0] [0] [0, 180] [0, 0] 1 = Inr ds \<and> length ds = 2)"
  using haversine_distance_mismatch [of "[0, 1, 2]" "[0, 0, 0]" "[0, 180]" "[0, 0]" 1]
        haversine_distance_mismatch [of "[0]" "[0]" "[0, 180]" "[0, 0]" 1]
  by (simp add: Let_def numeral_2_eq_2)

end
